theory Spec2Isabelle
  imports Main "HOL-Library.Word" "HOL-Library.Signed_Division"
begin

section \<open>Go library functions used by package spa\<close>

text \<open>
  The package calls a handful of functions of Go's standard library. They are modelled
  here as the library documents and implements them (on a POSIX system, where
  \<open>path/filepath\<close> and \<open>path\<close> agree). The gzip compressor and the MIME registry are
  not modelled: both are parameters of the builder (\<open>gz\<close> and \<open>tbe\<close> below).
\<close>

type_synonym byte = "8 word"

text \<open>\<open>strings.HasPrefix(s, prefix)\<close>: \<open>len(s) >= len(prefix) && s[:len(prefix)] == prefix\<close>.\<close>

definition strings_HasPrefix :: "string \<Rightarrow> string \<Rightarrow> bool" where
  "strings_HasPrefix s p = (length p \<le> length s \<and> take (length p) s = p)"

text \<open>\<open>strings.Contains(s, substr)\<close>: \<open>substr\<close> occurs in \<open>s\<close> at some index, byte for byte.\<close>

fun strings_Contains :: "string \<Rightarrow> string \<Rightarrow> bool" where
  "strings_Contains [] sub = (sub = [])"
| "strings_Contains (c # cs) sub = (strings_HasPrefix (c # cs) sub \<or> strings_Contains cs sub)"

text \<open>\<open>path.IsAbs(p)\<close>: \<open>len(p) > 0 && p[0] == '/'\<close>.\<close>

definition path_IsAbs :: "string \<Rightarrow> bool" where
  "path_IsAbs p = (case p of [] \<Rightarrow> False | c # _ \<Rightarrow> c = CHR ''/'')"

text \<open>
  \<open>path.Clean\<close>. The library keeps a read index \<open>r\<close> into the path, an output buffer with
  write index \<open>w\<close>, and \<open>dotdot\<close>, the index in the buffer below which \<open>..\<close> may not
  remove anything. Here the unread part of the path is a list, and \<open>out\<close> is the buffer
  up to \<open>w\<close>.

  \<open>backtrack\<close> is the inner loop of the \<open>..\<close> case, entered after \<open>out.w--\<close>:
  \<open>for out.w > dotdot && out.index(out.w) != '/' { out.w-- }\<close>.
\<close>

function backtrack :: "string \<Rightarrow> nat \<Rightarrow> nat \<Rightarrow> nat" where
  "backtrack out dotdot w =
     (if w > dotdot \<and> out ! w \<noteq> CHR ''/'' then backtrack out dotdot (w - 1) else w)"
  by pat_completeness auto
termination
  by (relation "measure (\<lambda>(out, dotdot, w). w)") auto

declare backtrack.simps [simp del]

text \<open>\<open>r == n || path[r] == '/'\<close>: the element that starts before \<open>r\<close> ends at \<open>r\<close>.\<close>

definition elementEnds :: "string \<Rightarrow> bool" where
  "elementEnds cs = (case cs of [] \<Rightarrow> True | d # _ \<Rightarrow> d = CHR ''/'')"

definition isSlash :: "char \<Rightarrow> bool" where
  "isSlash c = (c = CHR ''/'')"

function cleanLoop :: "bool \<Rightarrow> string \<Rightarrow> string \<Rightarrow> nat \<Rightarrow> string" where
  "cleanLoop rooted [] out dotdot = out"
| "cleanLoop rooted (c # cs) out dotdot =
     (if c = CHR ''/'' then cleanLoop rooted cs out dotdot
      else if c = CHR ''.'' \<and> elementEnds cs then cleanLoop rooted cs out dotdot
      else if c = CHR ''.'' \<and> (case cs of [] \<Rightarrow> False | d # ds \<Rightarrow> d = CHR ''.'' \<and> elementEnds ds) then
        (if length out > dotdot then
           cleanLoop rooted (drop 1 cs) (take (backtrack out dotdot (length out - 1)) out) dotdot
         else if \<not> rooted then
           cleanLoop rooted (drop 1 cs) ((if out \<noteq> [] then out @ ''/'' else out) @ ''..'')
             (length ((if out \<noteq> [] then out @ ''/'' else out) @ ''..''))
         else cleanLoop rooted (drop 1 cs) out dotdot)
      else
        cleanLoop rooted (dropWhile (\<lambda>x. \<not> isSlash x) cs)
          ((if rooted \<and> length out \<noteq> 1 \<or> \<not> rooted \<and> length out \<noteq> 0 then out @ ''/'' else out)
             @ c # takeWhile (\<lambda>x. \<not> isSlash x) cs)
          dotdot)"
  by pat_completeness auto
termination
  by (relation "measure (\<lambda>(rooted, p, out, dotdot). length p)")
     (auto simp: length_dropWhile_le less_Suc_eq_le)

declare cleanLoop.simps(2) [simp del]

definition path_Clean :: "string \<Rightarrow> string" where
  "path_Clean p =
     (case p of
        [] \<Rightarrow> ''.''
      | c # cs \<Rightarrow>
          (let out = (if c = CHR ''/'' then cleanLoop True cs ''/'' 1 else cleanLoop False p [] 0)
           in if out = [] then ''.'' else out))"

text \<open>
  \<open>path.Join(a, b)\<close> for two elements: empty elements are dropped, the rest are joined
  with a slash, and the result is cleaned; all elements empty gives the empty string.
\<close>

definition path_Join :: "string \<Rightarrow> string \<Rightarrow> string" where
  "path_Join a b =
     (if length a + length b = 0 then []
      else path_Clean (if a \<noteq> [] then a @ ''/'' @ b else b))"

text \<open>
  \<open>filepath.Join(a, b)\<close> on POSIX: the elements from the first non-empty one on are joined
  with the separator and cleaned by \<open>filepath.Clean\<close>, which is \<open>path.Clean\<close> there.
\<close>

definition filepath_Join :: "string \<Rightarrow> string \<Rightarrow> string" where
  "filepath_Join a b =
     (if a \<noteq> [] then path_Clean (a @ ''/'' @ b)
      else if b \<noteq> [] then path_Clean b
      else [])"

text \<open>
  \<open>filepath.Ext(path)\<close>: scanning backwards from the end and stopping at a separator, the
  suffix that starts at the first dot met; empty when there is none. \<open>extLoop\<close> takes the
  unscanned part reversed and the suffix scanned so far.
\<close>

fun extLoop :: "string \<Rightarrow> string \<Rightarrow> string" where
  "extLoop [] suffix = []"
| "extLoop (c # cs) suffix =
     (if c = CHR ''/'' then []
      else if c = CHR ''.'' then c # suffix
      else extLoop cs (c # suffix))"

definition filepath_Ext :: "string \<Rightarrow> string" where
  "filepath_Ext p = extLoop (rev p) []"

text \<open>
  Integer division of Go's \<open>int\<close> truncates towards zero. The sizes divided in this
  package are lengths of byte slices, or the initialiser \<open>-1\<close>, so no overflow arises
  and \<open>int\<close> with \<open>sdiv\<close> is exact.
\<close>

definition tcpPacketDataSize :: int where
  "tcpPacketDataSize = 1460"

definition defaultWebpath :: string where
  "defaultWebpath = ''/index.html''"

section \<open>The file system the builder reads\<close>

text \<open>
  What \<open>os.ReadDir\<close>, \<open>DirEntry.IsDir\<close>, \<open>os.Open\<close> and \<open>io.ReadAll\<close> answer at a path:
  a regular file with its bytes, a file that cannot be opened, a file that opens and
  cannot be read, a directory with its entries (name and node, in the order
  \<open>os.ReadDir\<close> returns them), or a directory that cannot be listed.
\<close>

datatype node =
    RegularFile "byte list"
  | UnopenableFile
  | UnreadableFile
  | Directory "(string \<times> node) list"
  | UnreadableDirectory

definition IsDir :: "node \<Rightarrow> bool" where
  "IsDir n = (case n of Directory _ \<Rightarrow> True | UnreadableDirectory \<Rightarrow> True | _ \<Rightarrow> False)"

text \<open>\<open>os.Open\<close> succeeds on everything but an unopenable file (a directory opens too).\<close>

definition os_Open :: "node \<Rightarrow> bool" where
  "os_Open n = (case n of UnopenableFile \<Rightarrow> False | _ \<Rightarrow> True)"

text \<open>\<open>io.ReadAll\<close> on the opened file: only a regular file yields its bytes.\<close>

definition io_ReadAll :: "node \<Rightarrow> byte list option" where
  "io_ReadAll n = (case n of RegularFile bs \<Rightarrow> Some bs | _ \<Rightarrow> None)"

section \<open>Cache entries and the builder\<close>

datatype error =
    ReadDirFailed string
  | OpenFailed string
  | ReadFailed string
  | GzipCreateFailed
  | GzipWriteFailed
  | RootNotFound

text \<open>
  The outcome of the anonymous function that compresses a payload: \<open>gzip.NewWriterLevel\<close>
  fails, \<open>io.Copy\<close> into the compressor fails, or the buffer holds the compressed bytes
  once the deferred \<open>Close\<close> has run.
\<close>

datatype gzipOutcome =
    NewWriterError
  | CopyError
  | Compressed "byte list"

text \<open>
  \<open>cacheEntry\<close>. The two handler fields are closures in the source; each is represented
  by what it captures besides the entry itself: \<open>identityHandler\<close> by the byte slice \<open>bs\<close>,
  \<open>gzipHandler\<close> by the byte slice \<open>gbs\<close>, or \<open>None\<close> for \<open>nil\<close>. What the closures do with
  a response writer is \<open>runIdentityHandler\<close> and \<open>runGzipHandler\<close> below.
\<close>

record cacheEntry =
  urlpath :: string
  contentType :: string
  identitySize :: int
  identityHandler :: "byte list"
  shouldServeCompressed :: bool
  compressedSize :: int
  gzipHandler :: "byte list option"

definition contentTypeIsAlreadyCompressed :: "string \<Rightarrow> bool" where
  "contentTypeIsAlreadyCompressed ct =
     (ct = ''image/jpeg'' \<or> ct = ''image/png'' \<or> ct = ''image/gif''
      \<or> ct = ''audio/mpeg'' \<or> ct = ''video/mp4'')"

definition appendFileEntry ::
  "(byte list \<Rightarrow> gzipOutcome) \<Rightarrow> (string \<Rightarrow> string) \<Rightarrow>
   cacheEntry list \<Rightarrow> string \<Rightarrow> string \<Rightarrow> node \<Rightarrow> error + cacheEntry list" where
  "appendFileEntry gz tbe sl upath fpath n =
     (if \<not> os_Open n then Inl (OpenFailed fpath)
      else
        (let ext = filepath_Ext fpath;
             ct = tbe ext
         in (case io_ReadAll n of
               None \<Rightarrow> Inl (ReadFailed fpath)
             | Some bs \<Rightarrow>
                 (let ce0 = \<lparr>urlpath = upath, contentType = ct, identitySize = int (length bs),
                             identityHandler = bs, shouldServeCompressed = False,
                             compressedSize = - 1, gzipHandler = None\<rparr>
                  in (case gz bs of
                        NewWriterError \<Rightarrow> Inl GzipCreateFailed
                      | CopyError \<Rightarrow> Inl GzipWriteFailed
                      | Compressed gbs \<Rightarrow>
                          (let compressedSize' = int (length gbs);
                               ce1 = ce0\<lparr>shouldServeCompressed :=
                                       (identitySize ce0 sdiv tcpPacketDataSize
                                          > compressedSize ce0 sdiv tcpPacketDataSize)\<rparr>;
                               ce2 = (if contentTypeIsAlreadyCompressed (contentType ce1)
                                      then ce1\<lparr>shouldServeCompressed := False\<rparr> else ce1);
                               ce3 = (if shouldServeCompressed ce2
                                      then ce2\<lparr>compressedSize := compressedSize',
                                               gzipHandler := Some gbs\<rparr>
                                      else ce2)
                           in Inr (sl @ [ce3])))))))"

text \<open>
  \<open>appendDirEntries\<close>. \<open>os.ReadDir\<close> returns the entries of a directory and fails on
  every other node; \<open>dirLoop\<close> is the \<open>for _, dirEntry := range dirEntries\<close>, on the
  entries not yet visited.
\<close>

fun appendDirEntries ::
  "(byte list \<Rightarrow> gzipOutcome) \<Rightarrow> (string \<Rightarrow> string) \<Rightarrow>
   cacheEntry list \<Rightarrow> string \<Rightarrow> string \<Rightarrow> node \<Rightarrow> error + cacheEntry list"
and dirLoop ::
  "(byte list \<Rightarrow> gzipOutcome) \<Rightarrow> (string \<Rightarrow> string) \<Rightarrow>
   cacheEntry list \<Rightarrow> string \<Rightarrow> string \<Rightarrow> (string \<times> node) list \<Rightarrow> error + cacheEntry list"
where
  "appendDirEntries gz tbe sl upath fpath (Directory es) = dirLoop gz tbe sl upath fpath es"
| "appendDirEntries gz tbe sl upath fpath (RegularFile bs) = Inl (ReadDirFailed fpath)"
| "appendDirEntries gz tbe sl upath fpath UnopenableFile = Inl (ReadDirFailed fpath)"
| "appendDirEntries gz tbe sl upath fpath UnreadableFile = Inl (ReadDirFailed fpath)"
| "appendDirEntries gz tbe sl upath fpath UnreadableDirectory = Inl (ReadDirFailed fpath)"
| "dirLoop gz tbe sl upath fpath [] = Inr sl"
| "dirLoop gz tbe sl upath fpath ((name, n) # rest) =
     (if strings_HasPrefix name ''.'' then dirLoop gz tbe sl upath fpath rest
      else if strings_HasPrefix name ''_'' then dirLoop gz tbe sl upath fpath rest
      else if IsDir n then
        (case appendDirEntries gz tbe sl (path_Join upath name) (filepath_Join fpath name) n of
           Inl e \<Rightarrow> Inl e
         | Inr sl' \<Rightarrow> dirLoop gz tbe sl' upath fpath rest)
      else
        (case appendFileEntry gz tbe sl (path_Join upath name) (filepath_Join fpath name) n of
           Inl e \<Rightarrow> Inl e
         | Inr sl' \<Rightarrow> dirLoop gz tbe sl' upath fpath rest))"

record handler =
  cache :: "string \<rightharpoonup> cacheEntry"

text \<open>The loop \<open>for _, entry := range cache { ret.cache[entry.urlpath] = entry }\<close>.\<close>

definition fillCache :: "cacheEntry list \<Rightarrow> (string \<rightharpoonup> cacheEntry)" where
  "fillCache entries = fold (\<lambda>entry m. m(urlpath entry \<mapsto> entry)) entries Map.empty"

definition NewHandler ::
  "(byte list \<Rightarrow> gzipOutcome) \<Rightarrow> (string \<Rightarrow> string) \<Rightarrow> string \<Rightarrow> node \<Rightarrow> error + handler" where
  "NewHandler gz tbe dir root =
     (case appendDirEntries gz tbe [] ''/'' dir root of
        Inl err \<Rightarrow> Inl err
      | Inr entries \<Rightarrow>
          (let ret = \<lparr>cache = fillCache entries\<rparr>
           in case cache ret defaultWebpath of
                None \<Rightarrow> Inl RootNotFound
              | Some _ \<Rightarrow> Inr ret))"

section \<open>Requests, response writers and the router\<close>

text \<open>
  An \<open>http.ResponseWriter\<close>: the header fields added so far in order, the status code
  once it is written, the body written so far, and whether the transport accepts writes.
  As the interface documents, \<open>Write\<close> first writes the header with status 200 when no
  status has been written, and a later \<open>WriteHeader\<close> changes nothing. A \<open>Write\<close> that the
  transport refuses adds nothing to the body and returns an error.
\<close>

record responseWriter =
  headerFields :: "(string \<times> string) list"
  statusCode :: "nat option"
  bodyWritten :: "byte list"
  transportOk :: bool

definition StatusOK :: nat where
  "StatusOK = 200"

definition StatusInternalServerError :: nat where
  "StatusInternalServerError = 500"

definition newResponseWriter :: "bool \<Rightarrow> responseWriter" where
  "newResponseWriter ok =
     \<lparr>headerFields = [], statusCode = None, bodyWritten = [], transportOk = ok\<rparr>"

definition Header_Add :: "string \<Rightarrow> string \<Rightarrow> responseWriter \<Rightarrow> responseWriter" where
  "Header_Add k v wr = wr\<lparr>headerFields := headerFields wr @ [(k, v)]\<rparr>"

definition WriteHeader :: "nat \<Rightarrow> responseWriter \<Rightarrow> responseWriter" where
  "WriteHeader code wr = (case statusCode wr of None \<Rightarrow> wr\<lparr>statusCode := Some code\<rparr> | Some _ \<Rightarrow> wr)"

text \<open>\<open>Write\<close> returns whether it succeeded, and the writer after it.\<close>

definition Write :: "byte list \<Rightarrow> responseWriter \<Rightarrow> bool \<times> responseWriter" where
  "Write p wr =
     (let wr1 = WriteHeader StatusOK wr
      in if transportOk wr1 then (True, wr1\<lparr>bodyWritten := bodyWritten wr1 @ p\<rparr>)
         else (False, wr1))"

text \<open>
  \<open>io.Copy(wr, bytes.NewReader(bs))\<close>: the reader's \<open>WriteTo\<close> returns at once when
  nothing is left to read, and otherwise hands all its bytes to one \<open>Write\<close>.
\<close>

definition io_Copy :: "responseWriter \<Rightarrow> byte list \<Rightarrow> bool \<times> responseWriter" where
  "io_Copy wr bs = (if bs = [] then (True, wr) else Write bs wr)"

text \<open>The body of the closure stored in \<open>identityHandler\<close>.\<close>

definition runIdentityHandler :: "cacheEntry \<Rightarrow> responseWriter \<Rightarrow> responseWriter" where
  "runIdentityHandler ce wr =
     (let wr1 = Header_Add ''Content-Type'' (contentType ce) wr;
          (ok, wr2) = io_Copy wr1 (identityHandler ce)
      in if \<not> ok then WriteHeader StatusInternalServerError wr2
         else WriteHeader StatusOK wr2)"

text \<open>The body of the closure stored in \<open>gzipHandler\<close>, over its captured \<open>gbs\<close>.\<close>

definition runGzipHandler :: "cacheEntry \<Rightarrow> byte list \<Rightarrow> responseWriter \<Rightarrow> responseWriter" where
  "runGzipHandler ce gbs wr =
     (let wr1 = Header_Add ''Content-Type'' (contentType ce) wr;
          wr2 = Header_Add ''Content-Encoding'' ''gzip'' wr1;
          (ok, wr3) = io_Copy wr2 gbs
      in if \<not> ok then WriteHeader StatusInternalServerError wr3
         else WriteHeader StatusOK wr3)"

text \<open>
  A request: \<open>r.URL.Path\<close> and \<open>r.Header\<close>, a map from field name to its values.
  \<open>Header.Get\<close> returns the first value of the field, or the empty string.
\<close>

record request =
  URL_Path :: string
  Header :: "string \<rightharpoonup> string list"

definition Header_Get :: "(string \<rightharpoonup> string list) \<Rightarrow> string \<Rightarrow> string" where
  "Header_Get h k = (case h k of None \<Rightarrow> [] | Some [] \<Rightarrow> [] | Some (v # _) \<Rightarrow> v)"

text \<open>
  The first half of \<open>handler.ServeHTTP\<close>: the path that is looked up, and the lookup with
  its fallback.
\<close>

definition normalizedPath :: "string \<Rightarrow> string" where
  "normalizedPath p = path_Clean (if \<not> path_IsAbs p then ''/'' @ p else p)"

definition lookupEntry :: "handler \<Rightarrow> string \<Rightarrow> cacheEntry option" where
  "lookupEntry h p0 =
     (let p = normalizedPath p0
      in case cache h p of
           Some entry \<Rightarrow> Some entry
         | None \<Rightarrow> cache h ''/index.html'')"

definition ServeHTTP :: "handler \<Rightarrow> responseWriter \<Rightarrow> request \<Rightarrow> responseWriter" where
  "ServeHTTP h wr r =
     (case lookupEntry h (URL_Path r) of
        None \<Rightarrow> WriteHeader StatusInternalServerError wr
      | Some entry \<Rightarrow>
          (case gzipHandler entry of
             Some gbs \<Rightarrow>
               if strings_Contains (Header_Get (Header r) ''Accept-Encoding'') ''gzip''
               then runGzipHandler entry gbs wr
               else runIdentityHandler entry wr
           | None \<Rightarrow> runIdentityHandler entry wr))"

section \<open>Instances of the parameters and a sample tree\<close>

text \<open>
  The extension types the package's \<open>init\<close> registers. \<open>mime.AddExtensionType\<close> gives a
  text type without a charset the parameter \<open>charset=utf-8\<close>. \<open>registeredType\<close> is the
  lookup in a registry that holds these entries only; the process-wide registry has more,
  which is why the builder takes the lookup as the parameter \<open>tbe\<close>.
\<close>

definition initTypes :: "(string \<times> string) list" where
  "initTypes =
     [(''.html'', ''text/html''), (''.js'', ''text/javascript''), (''.mjs'', ''text/javascript''),
      (''.txt'', ''text/plain''), (''.xhtml'', ''application/xhtml+xml''),
      (''.xml'', ''application/xml''), (''.json'', ''application/json''),
      (''.zip'', ''application/zip''), (''.mp3'', ''audio/mpeg''), (''.mp4'', ''video/mp4''),
      (''.mpeg'', ''video/mpeg''), (''.png'', ''image/png''), (''.jpg'', ''image/jpeg''),
      (''.jpeg'', ''image/jpeg''), (''.tif'', ''image/tiff''), (''.tiff'', ''image/tiff''),
      (''.ttf'', ''font/ttf'')]"

definition registeredType :: "string \<Rightarrow> string" where
  "registeredType ext =
     (case map_of initTypes ext of
        None \<Rightarrow> []
      | Some t \<Rightarrow> if strings_HasPrefix t ''text/'' then t @ ''; charset=utf-8'' else t)"

text \<open>
  A stand-in for the compressor in the examples: it never fails and frames the payload
  with 23 bytes, the overhead of a gzip stream that stores its input. \<open>unframe\<close> undoes it.
\<close>

definition framing :: "byte list \<Rightarrow> gzipOutcome" where
  "framing bs = Compressed (replicate 23 0 @ bs)"

definition unframe :: "byte list \<Rightarrow> byte list option" where
  "unframe gbs = (if 23 \<le> length gbs \<and> take 23 gbs = replicate 23 0 then Some (drop 23 gbs) else None)"

text \<open>
  A directory \<open>web\<close>: a hidden directory that cannot be listed, a file without extension,
  a private directory with an unopenable file, a script of 3000 bytes, a directory with a
  picture of 2000 bytes, and the root document.
\<close>

definition sampleRoot :: node where
  "sampleRoot =
     Directory
       [(''.git'', UnreadableDirectory),
        (''LICENSE'', RegularFile [77, 73, 84]),
        (''_drafts'', Directory [(''todo.html'', UnopenableFile)]),
        (''app.js'', RegularFile (replicate 3000 97)),
        (''assets'', Directory [(''logo.png'', RegularFile (replicate 2000 7))]),
        (''index.html'', RegularFile [104, 105])]"

definition licenseEntry :: cacheEntry where
  "licenseEntry =
     \<lparr>urlpath = ''/LICENSE'', contentType = [], identitySize = 3,
      identityHandler = [77, 73, 84], shouldServeCompressed = False,
      compressedSize = - 1, gzipHandler = None\<rparr>"

definition appEntry :: cacheEntry where
  "appEntry =
     \<lparr>urlpath = ''/app.js'', contentType = ''text/javascript; charset=utf-8'', identitySize = 3000,
      identityHandler = replicate 3000 97, shouldServeCompressed = True,
      compressedSize = 3023, gzipHandler = Some (replicate 23 0 @ replicate 3000 97)\<rparr>"

definition logoEntry :: cacheEntry where
  "logoEntry =
     \<lparr>urlpath = ''/assets/logo.png'', contentType = ''image/png'', identitySize = 2000,
      identityHandler = replicate 2000 7, shouldServeCompressed = False,
      compressedSize = - 1, gzipHandler = None\<rparr>"

definition indexEntry :: cacheEntry where
  "indexEntry =
     \<lparr>urlpath = ''/index.html'', contentType = ''text/html; charset=utf-8'', identitySize = 2,
      identityHandler = [104, 105], shouldServeCompressed = False,
      compressedSize = - 1, gzipHandler = None\<rparr>"

definition sampleEntries :: "cacheEntry list" where
  "sampleEntries = [licenseEntry, appEntry, logoEntry, indexEntry]"

definition sampleHandler :: handler where
  "sampleHandler = \<lparr>cache = fillCache sampleEntries\<rparr>"

section \<open>The specification's notions\<close>

text \<open>An entry is hidden when its name starts with a dot or an underscore.\<close>

definition hiddenName :: "string \<Rightarrow> bool" where
  "hiddenName name = (case name of [] \<Rightarrow> False | c # _ \<Rightarrow> c = CHR ''.'' \<or> c = CHR ''_'')"

text \<open>
  An error during the walk. At an entry that is visited: a directory that cannot be
  listed, a file that cannot be opened or read, a regular file on which the compressor
  fails, or a directory with such an entry among those that are not hidden. At the root:
  anything \<open>os.ReadDir\<close> cannot list, or a directory with such an entry.
\<close>

fun faultAt :: "(byte list \<Rightarrow> gzipOutcome) \<Rightarrow> node \<Rightarrow> bool"
and faultAmong :: "(byte list \<Rightarrow> gzipOutcome) \<Rightarrow> (string \<times> node) list \<Rightarrow> bool" where
  "faultAt gz (RegularFile bs) = (case gz bs of Compressed _ \<Rightarrow> False | _ \<Rightarrow> True)"
| "faultAt gz UnopenableFile = True"
| "faultAt gz UnreadableFile = True"
| "faultAt gz UnreadableDirectory = True"
| "faultAt gz (Directory es) = faultAmong gz es"
| "faultAmong gz [] = False"
| "faultAmong gz ((name, n) # rest) = ((\<not> hiddenName name \<and> faultAt gz n) \<or> faultAmong gz rest)"

definition walkFault :: "(byte list \<Rightarrow> gzipOutcome) \<Rightarrow> node \<Rightarrow> bool" where
  "walkFault gz root = (case root of Directory es \<Rightarrow> faultAmong gz es | _ \<Rightarrow> True)"

text \<open>
  The key of a file: the components of its path relative to the root, joined with a
  slash and prefixed with a slash.
\<close>

definition relativeKey :: "string list \<Rightarrow> string" where
  "relativeKey comps = concat (map (\<lambda>c. CHR ''/'' # c) comps)"

text \<open>The node a path leads to from a node, component by component.\<close>

fun nodeAt :: "node \<Rightarrow> string list \<Rightarrow> node option" where
  "nodeAt n [] = Some n"
| "nodeAt (Directory es) (c # p) = (case map_of es c of None \<Rightarrow> None | Some m \<Rightarrow> nodeAt m p)"
| "nodeAt (RegularFile bs) (c # p) = None"
| "nodeAt UnopenableFile (c # p) = None"
| "nodeAt UnreadableFile (c # p) = None"
| "nodeAt UnreadableDirectory (c # p) = None"

text \<open>
  File names as a file system has them: not empty, without a slash, and no two entries
  of one directory under the same name.
\<close>

fun validNames :: "node \<Rightarrow> bool"
and validEntries :: "(string \<times> node) list \<Rightarrow> bool" where
  "validNames (Directory es) = validEntries es"
| "validNames (RegularFile bs) = True"
| "validNames UnopenableFile = True"
| "validNames UnreadableFile = True"
| "validNames UnreadableDirectory = True"
| "validEntries [] = True"
| "validEntries ((name, n) # rest) =
     (name \<noteq> [] \<and> CHR ''/'' \<notin> set name \<and> name \<notin> fst ` set rest
      \<and> validNames n \<and> validEntries rest)"

text \<open>An element of a cleaned path: not empty, without a slash, and neither dot nor dot-dot.\<close>

definition cleanElement :: "string \<Rightarrow> bool" where
  "cleanElement c = (c \<noteq> [] \<and> CHR ''/'' \<notin> set c \<and> c \<noteq> ''.'' \<and> c \<noteq> ''..'')"

section \<open>Auxiliary notions for the proofs\<close>

text \<open>
  What \<open>appendFileEntry\<close> establishes for the entry it appends, under compressor \<open>gz\<close>:
  the compressor succeeded on the payload, the size field is the payload's length, the
  flag is set exactly for a payload of at least 1460 bytes whose type is not in the
  pre-compressed list, and the compressed handler and size are set exactly with the flag.
\<close>

definition builtBy :: "(byte list \<Rightarrow> gzipOutcome) \<Rightarrow> cacheEntry \<Rightarrow> bool" where
  "builtBy gz e =
     (\<exists>gbs. gz (identityHandler e) = Compressed gbs
        \<and> identitySize e = int (length (identityHandler e))
        \<and> shouldServeCompressed e =
             (\<not> contentTypeIsAlreadyCompressed (contentType e) \<and> 1460 \<le> length (identityHandler e))
        \<and> gzipHandler e = (if shouldServeCompressed e then Some gbs else None)
        \<and> compressedSize e = (if shouldServeCompressed e then int (length gbs) else - 1))"

text \<open>
  The regular files below a node that no hidden name leads to, each with its path from
  the node and its bytes, in the order of the directory listings.
\<close>

fun publishedFiles :: "node \<Rightarrow> (string list \<times> byte list) list"
and publishedIn :: "(string \<times> node) list \<Rightarrow> (string list \<times> byte list) list" where
  "publishedFiles (RegularFile bs) = [([], bs)]"
| "publishedFiles (Directory es) = publishedIn es"
| "publishedFiles UnopenableFile = []"
| "publishedFiles UnreadableFile = []"
| "publishedFiles UnreadableDirectory = []"
| "publishedIn [] = []"
| "publishedIn ((name, n) # rest) =
     (if hiddenName name then [] else map (\<lambda>(p, bs). (name # p, bs)) (publishedFiles n))
     @ publishedIn rest"

text \<open>
  The path the walk carries for the directory with the given components below the root:
  the key of the components, or a single slash at the root.
\<close>

definition dirKey :: "string list \<Rightarrow> string" where
  "dirKey comps = (if comps = [] then ''/'' else relativeKey comps)"

text \<open>A file name that the walk does not skip.\<close>

definition plainElement :: "string \<Rightarrow> bool" where
  "plainElement c = (c \<noteq> [] \<and> CHR ''/'' \<notin> set c \<and> \<not> hiddenName c)"

section \<open>Properties of the library functions\<close>

subsection \<open>Prefixes and substrings\<close>

lemma strings_HasPrefix_iff: "strings_HasPrefix s p \<longleftrightarrow> (\<exists>post. s = p @ post)"
proof
  assume "strings_HasPrefix s p"
  then have "s = p @ drop (length p) s"
    by (metis append_take_drop_id strings_HasPrefix_def)
  then show "\<exists>post. s = p @ post" ..
next
  assume "\<exists>post. s = p @ post"
  then show "strings_HasPrefix s p" by (auto simp: strings_HasPrefix_def)
qed

lemma strings_Contains_iff: "strings_Contains s sub \<longleftrightarrow> (\<exists>pre post. s = pre @ sub @ post)"
proof (induction s)
  case Nil
  then show ?case by auto
next
  case (Cons c cs)
  show ?case
  proof
    assume "strings_Contains (c # cs) sub"
    then consider "strings_HasPrefix (c # cs) sub" | "strings_Contains cs sub" by auto
    then show "\<exists>pre post. c # cs = pre @ sub @ post"
    proof cases
      case 1
      then obtain post where "c # cs = sub @ post" by (auto simp: strings_HasPrefix_iff)
      then have "c # cs = [] @ sub @ post" by simp
      then show ?thesis by blast
    next
      case 2
      with Cons.IH obtain pre post where "cs = pre @ sub @ post" by auto
      then have "c # cs = (c # pre) @ sub @ post" by simp
      then show ?thesis by blast
    qed
  next
    assume "\<exists>pre post. c # cs = pre @ sub @ post"
    then obtain pre post where pp: "c # cs = pre @ sub @ post" by blast
    show "strings_Contains (c # cs) sub"
    proof (cases pre)
      case Nil
      with pp have "strings_HasPrefix (c # cs) sub" by (auto simp: strings_HasPrefix_iff)
      then show ?thesis by simp
    next
      case (Cons d ds)
      with pp have "cs = ds @ sub @ post" by simp
      with Cons.IH have "strings_Contains cs sub" by blast
      then show ?thesis by simp
    qed
  qed
qed

subsection \<open>Cleaning a path that is clean\<close>

lemma relativeKey_simps [simp]:
  "relativeKey [] = []"
  "relativeKey (c # cs) = CHR ''/'' # c @ relativeKey cs"
  "relativeKey (xs @ ys) = relativeKey xs @ relativeKey ys"
  by (simp_all add: relativeKey_def)

lemma relativeKey_shape: "relativeKey cs = [] \<or> (\<exists>t. relativeKey cs = CHR ''/'' # t)"
  by (cases cs) simp_all

lemma takeWhile_element:
  assumes "CHR ''/'' \<notin> set xs"
  shows "takeWhile (\<lambda>x. \<not> isSlash x) (xs @ relativeKey cs) = xs"
    and "dropWhile (\<lambda>x. \<not> isSlash x) (xs @ relativeKey cs) = relativeKey cs"
proof -
  have a: "\<forall>x\<in>set xs. \<not> isSlash x" using assms by (auto simp: isSlash_def)
  have b: "takeWhile (\<lambda>x. \<not> isSlash x) (relativeKey cs) = []"
    using relativeKey_shape[of cs] by (auto simp: isSlash_def)
  have c: "dropWhile (\<lambda>x. \<not> isSlash x) (relativeKey cs) = relativeKey cs"
    using relativeKey_shape[of cs] by (auto simp: isSlash_def)
  from a b show "takeWhile (\<lambda>x. \<not> isSlash x) (xs @ relativeKey cs) = xs"
    by simp
  from a c show "dropWhile (\<lambda>x. \<not> isSlash x) (xs @ relativeKey cs) = relativeKey cs"
    by simp
qed

lemma cleanLoop_slash: "cleanLoop rooted (CHR ''/'' # cs) out dd = cleanLoop rooted cs out dd"
  by (simp add: cleanLoop.simps(2))

lemma cleanLoop_element:
  assumes "x \<noteq> CHR ''/''" "x \<noteq> CHR ''.''" "CHR ''/'' \<notin> set xs"
  shows "cleanLoop True (x # xs @ relativeKey cs) out dd =
           cleanLoop True (relativeKey cs) ((if length out \<noteq> 1 then out @ ''/'' else out) @ x # xs) dd"
  using assms by (simp add: cleanLoop.simps(2) takeWhile_element)

lemma cleanLoop_plain:
  assumes "\<forall>c\<in>set comps. plainElement c" "out \<noteq> []"
  shows "cleanLoop True (relativeKey comps) out dd =
           (if comps = [] then out
            else if length out = 1 then out @ tl (relativeKey comps)
            else out @ relativeKey comps)"
  using assms
proof (induction comps arbitrary: out)
  case Nil
  then show ?case by simp
next
  case (Cons c cs)
  from Cons.prems(1) have pc: "plainElement c" and pcs: "\<forall>c\<in>set cs. plainElement c" by simp_all
  from pc obtain x xs where c: "c = x # xs" and x: "x \<noteq> CHR ''/''" "x \<noteq> CHR ''.''"
    and xs: "CHR ''/'' \<notin> set xs"
    by (cases c) (auto simp: plainElement_def hiddenName_def)
  let ?out' = "(if length out \<noteq> 1 then out @ ''/'' else out) @ x # xs"
  have ne: "?out' \<noteq> []" and l: "length ?out' \<noteq> 1" using Cons.prems(2) by (auto simp: Suc_length_conv)
  have "cleanLoop True (relativeKey (c # cs)) out dd = cleanLoop True (relativeKey cs) ?out' dd"
    unfolding c using cleanLoop_element[OF x xs] by (simp add: cleanLoop_slash)
  also have "\<dots> = ?out' @ relativeKey cs"
    using Cons.IH[OF pcs ne, unfolded if_not_P[OF l]] l by (cases cs) simp_all
  finally show ?case by (simp add: c)
qed

lemma path_Clean_relativeKey:
  assumes "\<forall>c\<in>set comps. plainElement c" "comps \<noteq> []"
  shows "path_Clean (relativeKey comps) = relativeKey comps"
proof -
  from assms(2) obtain t where t: "relativeKey comps = CHR ''/'' # t"
    by (cases comps) simp_all
  have "cleanLoop True t ''/'' 1 = cleanLoop True (relativeKey comps) ''/'' 1"
    by (simp add: t cleanLoop_slash)
  also have "\<dots> = ''/'' @ tl (relativeKey comps)"
    using cleanLoop_plain[OF assms(1), of "''/''" 1] assms(2) by simp
  finally have "cleanLoop True t ''/'' 1 = relativeKey comps" by (simp add: t)
  then show ?thesis by (simp add: path_Clean_def t)
qed

lemma path_Join_dirKey:
  assumes "\<forall>c\<in>set pre. plainElement c" "plainElement name"
  shows "path_Join (dirKey pre) name = dirKey (pre @ [name])"
proof (cases "pre = []")
  case True
  have r: "cleanLoop True (CHR ''/'' # name) ''/'' 1 = CHR ''/'' # name"
    using cleanLoop_plain[of "[name]" "''/''" 1] assms(2) by simp
  show ?thesis using True r by (simp add: path_Join_def dirKey_def path_Clean_def)
next
  case False
  have "path_Clean (relativeKey (pre @ [name])) = relativeKey (pre @ [name])"
    using assms by (intro path_Clean_relativeKey) auto
  then show ?thesis using False
    by (cases pre) (simp_all add: path_Join_def dirKey_def)
qed

lemma element_of_key:
  assumes "CHR ''/'' \<notin> set c"
  shows "takeWhile (\<lambda>x. \<not> isSlash x) (c @ relativeKey cs) = c"
  using takeWhile_element(1)[OF assms] .

lemma relativeKey_inj:
  assumes "\<forall>c\<in>set p. CHR ''/'' \<notin> set c" "\<forall>c\<in>set q. CHR ''/'' \<notin> set c"
    and "relativeKey p = relativeKey q"
  shows "p = q"
  using assms
proof (induction p arbitrary: q)
  case Nil
  then show ?case by (cases q) simp_all
next
  case (Cons c cs)
  from Cons.prems(3) obtain d ds where q: "q = d # ds" by (cases q) simp_all
  from Cons.prems(3) q have eq: "c @ relativeKey cs = d @ relativeKey ds" by simp
  from Cons.prems(1) have c: "CHR ''/'' \<notin> set c" by simp
  from Cons.prems(2) q have d: "CHR ''/'' \<notin> set d" by simp
  have "c = takeWhile (\<lambda>x. \<not> isSlash x) (c @ relativeKey cs)"
    using element_of_key[OF c] by simp
  also have "\<dots> = d" unfolding eq using element_of_key[OF d] by simp
  finally have cd: "c = d" .
  with eq have "relativeKey cs = relativeKey ds" by simp
  with Cons.IH[of ds] Cons.prems(1,2) q have "cs = ds" by simp
  with cd q show ?case by simp
qed

subsection \<open>Cleaning a rooted path\<close>

lemma backtrack_stops:
  assumes "i \<le> w" "w < length out" "\<forall>j. i < j \<and> j \<le> w \<longrightarrow> out ! j \<noteq> CHR ''/''"
    and "dd \<le> i" "out ! i = CHR ''/'' \<or> i = dd"
  shows "backtrack out dd w = i"
  using assms
proof (induction w)
  case 0
  then show ?case by (subst backtrack.simps) auto
next
  case (Suc w)
  show ?case
  proof (cases "i = Suc w")
    case True
    with Suc.prems show ?thesis by (subst backtrack.simps) auto
  next
    case False
    with Suc.prems have le: "i \<le> w" by simp
    from Suc.prems le have step: "Suc w > dd \<and> out ! Suc w \<noteq> CHR ''/''" by auto
    from Suc.prems le have "backtrack out dd w = i" by (intro Suc.IH) auto
    with step show ?thesis by (subst backtrack.simps) simp
  qed
qed

lemma backtrack_last_element:
  assumes "CHR ''/'' \<notin> set s" "dd \<le> length A" "x = CHR ''/'' \<or> length A = dd"
  shows "backtrack (A @ x # s) dd (length A + length s) = length A"
proof (rule backtrack_stops)
  show "\<forall>j. length A < j \<and> j \<le> length A + length s \<longrightarrow> (A @ x # s) ! j \<noteq> CHR ''/''"
  proof (intro allI impI)
    fix j assume j: "length A < j \<and> j \<le> length A + length s"
    then have "(A @ x # s) ! j = s ! (j - length A - 1)"
      by (simp add: nth_append nth_Cons')
    moreover from j have "j - length A - 1 < length s" by arith
    ultimately show "(A @ x # s) ! j \<noteq> CHR ''/''" using assms(1) by (metis nth_mem)
  qed
qed (use assms in auto)

lemma dirKey_snoc:
  "(if length (dirKey comps) \<noteq> 1 then dirKey comps @ ''/'' else dirKey comps) @ c
     = dirKey (comps @ [c])" if "\<forall>c\<in>set comps. c \<noteq> []"
proof (cases comps)
  case Nil
  then show ?thesis by (simp add: dirKey_def)
next
  case (Cons d ds)
  with that have "d \<noteq> []" by simp
  then have "length (relativeKey (d # ds)) \<noteq> 1" by (cases d) simp_all
  with Cons show ?thesis by (simp add: dirKey_def)
qed

lemma dirKey_backtrack:
  assumes "CHR ''/'' \<notin> set c" "c \<noteq> []"
  shows "take (backtrack (dirKey (comps @ [c])) 1 (length (dirKey (comps @ [c])) - 1))
           (dirKey (comps @ [c])) = dirKey comps"
proof (cases comps)
  case Nil
  from assms(2) obtain x s where c: "c = x # s" by (cases c) auto
  with assms(1) have s: "CHR ''/'' \<notin> set s" by simp
  have "backtrack (''/'' @ x # s) 1 (length ''/'' + length s) = length ''/''"
    by (rule backtrack_last_element[OF s]) simp_all
  then show ?thesis using Nil c by (simp add: dirKey_def)
next
  case (Cons d ds)
  define K where "K = relativeKey comps"
  have l: "1 \<le> length K" using Cons by (simp add: K_def)
  have o: "dirKey (comps @ [c]) = K @ CHR ''/'' # c" "dirKey comps = K"
    using Cons by (simp_all add: dirKey_def K_def)
  have w: "length (K @ CHR ''/'' # c) - 1 = length K + length c" by simp
  have "backtrack (K @ CHR ''/'' # c) 1 (length K + length c) = length K"
    by (rule backtrack_last_element[OF assms(1) l]) simp
  then show ?thesis unfolding o w by simp
qed

lemma dirKey_length: "(\<forall>c\<in>set comps. c \<noteq> []) \<Longrightarrow> (1 < length (dirKey comps)) = (comps \<noteq> [])"
proof (cases comps)
  case Nil
  then show ?thesis by (simp add: dirKey_def)
next
  case (Cons d ds)
  assume "\<forall>c\<in>set comps. c \<noteq> []"
  with Cons have "d \<noteq> []" by simp
  then show ?thesis using Cons by (cases d) (simp_all add: dirKey_def)
qed

lemma takeWhile_empty_ends: "takeWhile (\<lambda>x. \<not> isSlash x) cs = [] \<Longrightarrow> elementEnds cs"
  by (cases cs) (auto simp: elementEnds_def isSlash_def split: if_splits)

lemma new_element_clean:
  assumes "c \<noteq> CHR ''/''"
    and "\<not> (c = CHR ''.'' \<and> elementEnds cs)"
    and "\<not> (c = CHR ''.'' \<and> (case cs of [] \<Rightarrow> False | d # ds \<Rightarrow> d = CHR ''.'' \<and> elementEnds ds))"
  shows "cleanElement (c # takeWhile (\<lambda>x. \<not> isSlash x) cs)"
proof -
  have a: "CHR ''/'' \<notin> set (takeWhile (\<lambda>x. \<not> isSlash x) cs)"
    by (auto dest: set_takeWhileD simp: isSlash_def)
  have b: "c # takeWhile (\<lambda>x. \<not> isSlash x) cs \<noteq> ''.''"
    using assms(2) takeWhile_empty_ends[of cs] by auto
  have d: "c # takeWhile (\<lambda>x. \<not> isSlash x) cs \<noteq> ''..''"
  proof
    assume e: "c # takeWhile (\<lambda>x. \<not> isSlash x) cs = ''..''"
    then have c: "c = CHR ''.''" and t: "takeWhile (\<lambda>x. \<not> isSlash x) cs = ''.''" by simp_all
    from t obtain ds where cs: "cs = CHR ''.'' # ds" and "takeWhile (\<lambda>x. \<not> isSlash x) ds = []"
      by (cases cs) (auto split: if_splits)
    then have "elementEnds ds" by (simp add: takeWhile_empty_ends)
    with assms(3) c cs show False by simp
  qed
  from assms(1) a b d show ?thesis by (simp add: cleanElement_def)
qed

lemma cleanLoop_rooted:
  assumes "\<forall>c\<in>set comps. cleanElement c"
  shows "\<exists>comps'. cleanLoop True p (dirKey comps) 1 = dirKey comps' \<and> (\<forall>c\<in>set comps'. cleanElement c)"
  using assms
proof (induction "length p" arbitrary: p comps rule: less_induct)
  case less
  note ne = less.prems[THEN bspec, unfolded cleanElement_def, THEN conjunct1]
  have ne': "\<forall>c\<in>set comps. c \<noteq> []" using less.prems by (simp add: cleanElement_def)
  show ?case
  proof (cases p)
    case Nil
    with less.prems show ?thesis by auto
  next
    case (Cons c cs)
    consider (slash) "c = CHR ''/''"
      | (dot) "c \<noteq> CHR ''/''" "c = CHR ''.'' \<and> elementEnds cs"
      | (dotdot) "c \<noteq> CHR ''/''" "\<not> (c = CHR ''.'' \<and> elementEnds cs)"
          "c = CHR ''.'' \<and> (case cs of [] \<Rightarrow> False | d # ds \<Rightarrow> d = CHR ''.'' \<and> elementEnds ds)"
      | (element) "c \<noteq> CHR ''/''" "\<not> (c = CHR ''.'' \<and> elementEnds cs)"
          "\<not> (c = CHR ''.'' \<and> (case cs of [] \<Rightarrow> False | d # ds \<Rightarrow> d = CHR ''.'' \<and> elementEnds ds))"
      by blast
    then show ?thesis
    proof cases
      case slash
      have "cleanLoop True p (dirKey comps) 1 = cleanLoop True cs (dirKey comps) 1"
        using slash Cons by (simp add: cleanLoop.simps(2))
      with less.hyps[of cs comps] less.prems Cons show ?thesis by simp
    next
      case dot
      have "cleanLoop True p (dirKey comps) 1 = cleanLoop True cs (dirKey comps) 1"
        using dot Cons by (simp add: cleanLoop.simps(2))
      with less.hyps[of cs comps] less.prems Cons show ?thesis by simp
    next
      case dotdot
      have short: "length (drop 1 cs) < length p" using Cons by simp
      show ?thesis
      proof (cases "comps = []")
        case True
        then have "\<not> 1 < length (dirKey comps)" by (simp add: dirKey_def)
        then have "cleanLoop True p (dirKey comps) 1 = cleanLoop True (drop 1 cs) (dirKey comps) 1"
          using dotdot Cons by (simp add: cleanLoop.simps(2))
        with less.hyps[OF short, of comps] less.prems show ?thesis by simp
      next
        case False
        then obtain pre l where comps: "comps = pre @ [l]" by (metis rev_exhaust)
        with less.prems have l: "CHR ''/'' \<notin> set l" "l \<noteq> []" and pre: "\<forall>c\<in>set pre. cleanElement c"
          by (simp_all add: cleanElement_def)
        from False dirKey_length[OF ne'] have "1 < length (dirKey comps)" by simp
        then have "cleanLoop True p (dirKey comps) 1 =
            cleanLoop True (drop 1 cs)
              (take (backtrack (dirKey comps) 1 (length (dirKey comps) - 1)) (dirKey comps)) 1"
          using dotdot Cons by (simp add: cleanLoop.simps(2))
        also have "\<dots> = cleanLoop True (drop 1 cs) (dirKey pre) 1"
          unfolding comps using dirKey_backtrack[OF l] by simp
        finally show ?thesis using less.hyps[OF short, of pre] pre by simp
      qed
    next
      case element
      let ?e = "c # takeWhile (\<lambda>x. \<not> isSlash x) cs"
      have short: "length (dropWhile (\<lambda>x. \<not> isSlash x) cs) < length p"
        using Cons length_dropWhile_le[of "\<lambda>x. \<not> isSlash x" cs] by simp
      have ce: "cleanElement ?e" by (rule new_element_clean[OF element])
      from element have c1: "(c = CHR ''/'') = False"
        and c2: "(c = CHR ''.'' \<and> elementEnds cs) = False"
        and c3: "(c = CHR ''.'' \<and> (case cs of [] \<Rightarrow> False | d # ds \<Rightarrow> d = CHR ''.'' \<and> elementEnds ds)) = False"
        by simp_all
      have "cleanLoop True p (dirKey comps) 1 =
          cleanLoop True (dropWhile (\<lambda>x. \<not> isSlash x) cs)
            ((if length (dirKey comps) \<noteq> 1 then dirKey comps @ ''/'' else dirKey comps) @ ?e) 1"
        unfolding Cons by (subst cleanLoop.simps(2)) (simp only: c1 c2 c3 if_False, simp)
      also have "\<dots> = cleanLoop True (dropWhile (\<lambda>x. \<not> isSlash x) cs) (dirKey (comps @ [?e])) 1"
        using dirKey_snoc[OF ne', of ?e] by simp
      finally show ?thesis using less.hyps[OF short, of "comps @ [?e]"] less.prems ce by simp
    qed
  qed
qed

lemma dirKey_nonempty: "dirKey comps \<noteq> []"
  by (cases comps) (simp_all add: dirKey_def)

lemma normalizedPath_clean:
  "\<exists>comps. normalizedPath p = dirKey comps \<and> (\<forall>c\<in>set comps. cleanElement c)"
proof -
  obtain t where t: "(if \<not> path_IsAbs p then ''/'' @ p else p) = CHR ''/'' # t"
  proof (cases "path_IsAbs p")
    case True
    then obtain u where "p = CHR ''/'' # u" by (cases p) (auto simp: path_IsAbs_def)
    with True that show ?thesis by simp
  next
    case False
    with that show ?thesis by simp
  qed
  from cleanLoop_rooted[of "[]" t] obtain comps where
    c: "cleanLoop True t ''/'' 1 = dirKey comps" "\<forall>c\<in>set comps. cleanElement c"
    by (auto simp: dirKey_def)
  have "normalizedPath p = dirKey comps"
    unfolding normalizedPath_def t using c(1) dirKey_nonempty[of comps]
    by (simp add: path_Clean_def)
  with c(2) show ?thesis by blast
qed

section \<open>Properties of the builder\<close>

subsection \<open>What one file contributes\<close>

lemma packets_positive: "(int n sdiv 1460 > (- 1) sdiv 1460) = (1460 \<le> n)"
proof -
  have a: "(- 1 :: int) sdiv 1460 = 0"
    by (simp add: signed_divide_int_def)
  have b: "int n sdiv 1460 = int n div 1460"
    by (simp add: signed_divide_int_def sgn_if)
  show ?thesis unfolding a b by (simp add: pos_imp_zdiv_pos_iff)
qed

lemma appendFileEntry_Inr:
  assumes "appendFileEntry gz tbe sl u f n = Inr sl'"
  shows "\<exists>bs e. n = RegularFile bs \<and> sl' = sl @ [e] \<and> builtBy gz e \<and> urlpath e = u
            \<and> identityHandler e = bs \<and> contentType e = tbe (filepath_Ext f)"
proof -
  from assms obtain bs where n: "n = RegularFile bs"
    by (cases n) (auto simp: appendFileEntry_def os_Open_def io_ReadAll_def Let_def)
  from assms n obtain gbs where g: "gz bs = Compressed gbs"
    by (cases "gz bs") (auto simp: appendFileEntry_def os_Open_def io_ReadAll_def Let_def)
  have p: "(- (1 sdiv tcpPacketDataSize) < int (length bs) sdiv tcpPacketDataSize) = (1460 \<le> length bs)"
    using packets_positive[of "length bs"] by (simp add: tcpPacketDataSize_def)
  show ?thesis
    using assms unfolding n appendFileEntry_def os_Open_def io_ReadAll_def Let_def
    by (auto simp: g p builtBy_def split: if_splits)
qed

lemma appendFileEntry_fault:
  "\<not> IsDir n \<Longrightarrow> isl (appendFileEntry gz tbe sl u f n) = faultAt gz n"
  by (cases n; cases "gz (case n of RegularFile bs \<Rightarrow> bs | _ \<Rightarrow> [])")
     (simp_all add: appendFileEntry_def os_Open_def io_ReadAll_def IsDir_def Let_def)

subsection \<open>The walk only appends built entries\<close>

lemma walk_appends:
  "(appendDirEntries gz tbe sl u f n = Inr sl' \<longrightarrow> (\<exists>new. sl' = sl @ new \<and> (\<forall>e\<in>set new. builtBy gz e)))"
  "(dirLoop gz tbe sl u f es = Inr sl' \<longrightarrow> (\<exists>new. sl' = sl @ new \<and> (\<forall>e\<in>set new. builtBy gz e)))"
proof (induction gz tbe sl u f n and gz tbe sl u f es arbitrary: sl' and sl' rule: appendDirEntries_dirLoop.induct)
  case (7 gz tbe sl upath fpath name n rest)
  show ?case
  proof (intro impI)
    assume a: "dirLoop gz tbe sl upath fpath ((name, n) # rest) = Inr sl'"
    show "\<exists>new. sl' = sl @ new \<and> (\<forall>e\<in>set new. builtBy gz e)"
    proof (cases "strings_HasPrefix name ''.'' \<or> strings_HasPrefix name ''_''")
      case True
      then show ?thesis using a 7(1,2) by (auto split: if_splits)
    next
      case False
      show ?thesis
      proof (cases "IsDir n")
        case True
        with False a obtain s1 where
          s1: "appendDirEntries gz tbe sl (path_Join upath name) (filepath_Join fpath name) n = Inr s1"
          and r: "dirLoop gz tbe s1 upath fpath rest = Inr sl'"
          by (auto split: sum.splits)
        from 7(3) False True s1 obtain n1 where n1: "s1 = sl @ n1" "\<forall>e\<in>set n1. builtBy gz e" by auto
        from 7(4) False True s1 r obtain n2 where n2: "sl' = s1 @ n2" "\<forall>e\<in>set n2. builtBy gz e" by blast
        show ?thesis using n1 n2 by (intro exI[of _ "n1 @ n2"]) auto
      next
        case nd: False
        with False a obtain s1 where
          s1: "appendFileEntry gz tbe sl (path_Join upath name) (filepath_Join fpath name) n = Inr s1"
          and r: "dirLoop gz tbe s1 upath fpath rest = Inr sl'"
          by (auto split: sum.splits)
        from appendFileEntry_Inr[OF s1] obtain e where n1: "s1 = sl @ [e]" "builtBy gz e" by auto
        from 7(5) False nd s1 r obtain n2 where n2: "sl' = s1 @ n2" "\<forall>e\<in>set n2. builtBy gz e" by blast
        show ?thesis using n1 n2 by (intro exI[of _ "e # n2"]) auto
      qed
    qed
  qed
qed auto

subsection \<open>Errors of the walk\<close>

lemma hiddenName_iff:
  "hiddenName name \<longleftrightarrow> strings_HasPrefix name ''.'' \<or> strings_HasPrefix name ''_''"
  by (cases name) (auto simp: hiddenName_def strings_HasPrefix_def)

lemma walk_fault:
  "isl (appendDirEntries gz tbe sl u f n) = walkFault gz n"
  "isl (dirLoop gz tbe sl u f es) = faultAmong gz es"
proof (induction gz tbe sl u f n and gz tbe sl u f es rule: appendDirEntries_dirLoop.induct)
  case (7 gz tbe sl upath fpath name n rest)
  show ?case
  proof (cases "hiddenName name")
    case True
    with 7(1,2) show ?thesis by (auto simp: hiddenName_iff)
  next
    case False
    then have v: "\<not> strings_HasPrefix name ''.''" "\<not> strings_HasPrefix name ''_''"
      by (simp_all add: hiddenName_iff)
    show ?thesis
    proof (cases "IsDir n")
      case True
      then have w: "walkFault gz n = faultAt gz n"
        by (cases n) (simp_all add: IsDir_def walkFault_def)
      show ?thesis
      proof (cases "appendDirEntries gz tbe sl (path_Join upath name) (filepath_Join fpath name) n")
        case (Inl err)
        with 7(3)[OF v True] w have "faultAt gz n" by simp
        with Inl v True False show ?thesis by simp
      next
        case (Inr s1)
        with 7(3)[OF v True] w have "\<not> faultAt gz n" by simp
        with Inr v True False 7(4)[OF v True Inr] show ?thesis by simp
      qed
    next
      case nd: False
      show ?thesis
      proof (cases "appendFileEntry gz tbe sl (path_Join upath name) (filepath_Join fpath name) n")
        case (Inl err)
        with appendFileEntry_fault[OF nd, of gz tbe sl "path_Join upath name" "filepath_Join fpath name"]
        have "faultAt gz n" by simp
        with Inl v nd False show ?thesis by simp
      next
        case (Inr s1)
        with appendFileEntry_fault[OF nd, of gz tbe sl "path_Join upath name" "filepath_Join fpath name"]
        have "\<not> faultAt gz n" by simp
        with Inr v nd False 7(5)[OF v nd Inr] show ?thesis by simp
      qed
    qed
  qed
qed (simp_all add: walkFault_def)

lemma dirLoop_aborts:
  "dirLoop gz tbe sl u f es = Inl err \<Longrightarrow> dirLoop gz tbe sl u f (es @ rest) = Inl err"
proof (induction es arbitrary: sl)
  case Nil
  then show ?case by simp
next
  case (Cons a es)
  obtain name n where a: "a = (name, n)" by (cases a)
  from Cons.prems Cons.IH show ?case
    unfolding a by (auto split: if_splits sum.splits)
qed

subsection \<open>The entries the walk appends are the published files\<close>

lemma validEntries_plain:
  "validEntries ((name, n) # rest) \<Longrightarrow> \<not> hiddenName name \<Longrightarrow> plainElement name"
  by (simp add: plainElement_def)

lemma walk_published:
  "u = dirKey pre \<longrightarrow> (\<forall>c\<in>set pre. plainElement c) \<longrightarrow> validNames n
     \<longrightarrow> appendDirEntries gz tbe sl u f n = Inr sl'
     \<longrightarrow> map (\<lambda>e. (urlpath e, identityHandler e)) sl' =
           map (\<lambda>e. (urlpath e, identityHandler e)) sl
           @ map (\<lambda>(p, bs). (relativeKey (pre @ p), bs)) (publishedFiles n)"
  "u = dirKey pre \<longrightarrow> (\<forall>c\<in>set pre. plainElement c) \<longrightarrow> validEntries es
     \<longrightarrow> dirLoop gz tbe sl u f es = Inr sl'
     \<longrightarrow> map (\<lambda>e. (urlpath e, identityHandler e)) sl' =
           map (\<lambda>e. (urlpath e, identityHandler e)) sl
           @ map (\<lambda>(p, bs). (relativeKey (pre @ p), bs)) (publishedIn es)"
proof (induction gz tbe sl u f n and gz tbe sl u f es arbitrary: pre sl' and pre sl'
    rule: appendDirEntries_dirLoop.induct)
  case (7 gz tbe sl upath fpath name n rest)
  show ?case
  proof (intro impI)
    assume u: "upath = dirKey pre" and pre: "\<forall>c\<in>set pre. plainElement c"
      and val: "validEntries ((name, n) # rest)"
      and run: "dirLoop gz tbe sl upath fpath ((name, n) # rest) = Inr sl'"
    from val have vn: "validNames n" and vr: "validEntries rest" by simp_all
    show "map (\<lambda>e. (urlpath e, identityHandler e)) sl' =
           map (\<lambda>e. (urlpath e, identityHandler e)) sl
           @ map (\<lambda>(p, bs). (relativeKey (pre @ p), bs)) (publishedIn ((name, n) # rest))"
    proof (cases "hiddenName name")
      case True
      then consider "strings_HasPrefix name ''.''"
        | "\<not> strings_HasPrefix name ''.''" "strings_HasPrefix name ''_''"
        by (auto simp: hiddenName_iff)
      then show ?thesis
      proof cases
        case 1
        with run have "dirLoop gz tbe sl upath fpath rest = Inr sl'" by simp
        with 7(1)[OF 1] u pre vr True show ?thesis by simp
      next
        case 2
        with run have "dirLoop gz tbe sl upath fpath rest = Inr sl'" by simp
        with 7(2)[OF 2] u pre vr True show ?thesis by simp
      qed
    next
      case False
      then have v: "\<not> strings_HasPrefix name ''.''" "\<not> strings_HasPrefix name ''_''"
        by (simp_all add: hiddenName_iff)
      from validEntries_plain[OF val False] have pn: "plainElement name" .
      from pre pn have pre': "\<forall>c\<in>set (pre @ [name]). plainElement c" by simp
      have j: "path_Join upath name = dirKey (pre @ [name])"
        unfolding u by (rule path_Join_dirKey[OF pre pn])
      have k: "dirKey (pre @ [name]) = relativeKey (pre @ [name])" by (simp add: dirKey_def)
      show ?thesis
      proof (cases "IsDir n")
        case True
        with v run obtain s1 where
          s1: "appendDirEntries gz tbe sl (path_Join upath name) (filepath_Join fpath name) n = Inr s1"
          and r: "dirLoop gz tbe s1 upath fpath rest = Inr sl'"
          by (auto split: sum.splits)
        from 7(3)[OF v True] j pre' vn s1
        have a: "map (\<lambda>e. (urlpath e, identityHandler e)) s1 =
           map (\<lambda>e. (urlpath e, identityHandler e)) sl
           @ map (\<lambda>(p, bs). (relativeKey ((pre @ [name]) @ p), bs)) (publishedFiles n)"
          by blast
        from 7(4)[OF v True s1] u pre vr r
        have b: "map (\<lambda>e. (urlpath e, identityHandler e)) sl' =
           map (\<lambda>e. (urlpath e, identityHandler e)) s1
           @ map (\<lambda>(p, bs). (relativeKey (pre @ p), bs)) (publishedIn rest)"
          by blast
        show ?thesis unfolding b a using False by (simp add: case_prod_unfold comp_def)
      next
        case nd: False
        with v run obtain s1 where
          s1: "appendFileEntry gz tbe sl (path_Join upath name) (filepath_Join fpath name) n = Inr s1"
          and r: "dirLoop gz tbe s1 upath fpath rest = Inr sl'"
          by (auto split: sum.splits)
        from appendFileEntry_Inr[OF s1] obtain bs e where
          e: "n = RegularFile bs" "s1 = sl @ [e]" "urlpath e = path_Join upath name"
            "identityHandler e = bs" by blast
        from 7(5)[OF v nd s1] u pre vr r
        have b: "map (\<lambda>e. (urlpath e, identityHandler e)) sl' =
           map (\<lambda>e. (urlpath e, identityHandler e)) s1
           @ map (\<lambda>(p, bs). (relativeKey (pre @ p), bs)) (publishedIn rest)"
          by blast
        show ?thesis unfolding b using False e j k by simp
      qed
    qed
  qed
qed simp_all

subsection \<open>The published files are the regular files at paths without hidden names\<close>

lemma cons_path_image:
  "(c # q, bs) \<in> (\<lambda>(p, bs). (name # p, bs)) ` S \<longleftrightarrow> c = name \<and> (q, bs) \<in> S"
  by force

lemma published_paths:
  "validNames n \<longrightarrow> ((p, bs) \<in> set (publishedFiles n) \<longleftrightarrow>
      nodeAt n p = Some (RegularFile bs) \<and> (\<forall>c\<in>set p. \<not> hiddenName c))"
  "validEntries es \<longrightarrow> ((p, bs) \<in> set (publishedIn es) \<longleftrightarrow>
      nodeAt (Directory es) p = Some (RegularFile bs) \<and> (\<forall>c\<in>set p. \<not> hiddenName c))"
proof (induction n and es arbitrary: p bs and p bs rule: publishedFiles_publishedIn.induct)
  case (1 bs')
  show ?case by (cases p) auto
next
  case (2 es)
  then show ?case by simp
next
  case 3
  show ?case by (cases p) auto
next
  case 4
  show ?case by (cases p) auto
next
  case 5
  show ?case by (cases p) auto
next
  case 6
  show ?case by (cases p) auto
next
  case (7 name n rest)
  show ?case
  proof (intro impI)
    assume val: "validEntries ((name, n) # rest)"
    then have vn: "validNames n" and vr: "validEntries rest" and fresh: "name \<notin> fst ` set rest"
      by simp_all
    from fresh have nf: "map_of rest name = None" by (simp add: map_of_eq_None_iff)
    note ihr = 7(2)[rule_format, OF vr]
    show "((p, bs) \<in> set (publishedIn ((name, n) # rest))) =
          (nodeAt (Directory ((name, n) # rest)) p = Some (RegularFile bs) \<and> (\<forall>c\<in>set p. \<not> hiddenName c))"
    proof (cases p)
      case Nil
      have "([], bs) \<notin> set (publishedIn rest)" using ihr[of "[]" bs] by simp
      then show ?thesis using Nil by auto
    next
      case (Cons c q)
      show ?thesis
      proof (cases "c = name")
        case True
        have r: "(name # q, bs) \<notin> set (publishedIn rest)"
          using ihr[of "name # q" bs] nf by simp
        show ?thesis
        proof (cases "hiddenName name")
          case h: True
          with r Cons True show ?thesis by simp
        next
          case h: False
          from 7(1)[OF h, rule_format, OF vn, of q bs] r Cons True h
          show ?thesis by (simp add: cons_path_image)
        qed
      next
        case False
        have "(c # q, bs) \<notin> (\<lambda>(p, bs). (name # p, bs)) ` set (publishedFiles n)"
          using False by (simp add: cons_path_image)
        then show ?thesis using ihr[of "c # q" bs] Cons False by simp
      qed
    qed
  qed
qed

lemma published_plain:
  "validNames n \<longrightarrow> (p, bs) \<in> set (publishedFiles n) \<longrightarrow> (\<forall>c\<in>set p. plainElement c)"
  "validEntries es \<longrightarrow> (p, bs) \<in> set (publishedIn es) \<longrightarrow> (\<forall>c\<in>set p. plainElement c)"
proof (induction n and es arbitrary: p bs and p bs rule: publishedFiles_publishedIn.induct)
  case (7 name n rest)
  show ?case
  proof (intro impI)
    assume val: "validEntries ((name, n) # rest)"
      and mem: "(p, bs) \<in> set (publishedIn ((name, n) # rest))"
    from val have vn: "validNames n" and vr: "validEntries rest" by simp_all
    from mem consider q where "\<not> hiddenName name" "p = name # q" "(q, bs) \<in> set (publishedFiles n)"
      | "(p, bs) \<in> set (publishedIn rest)"
      by (auto split: if_splits)
    then show "\<forall>c\<in>set p. plainElement c"
    proof cases
      case 1
      from 7(1)[OF 1(1), rule_format, OF vn 1(3)] validEntries_plain[OF val 1(1)] 1(2)
      show ?thesis by simp
    next
      case 2
      from 7(2)[rule_format, OF vr 2] show ?thesis by blast
    qed
  qed
qed simp_all

subsection \<open>Keys are distinct\<close>

lemma published_distinct:
  "validNames n \<longrightarrow> distinct (map fst (publishedFiles n))"
  "validEntries es \<longrightarrow> distinct (map fst (publishedIn es))"
proof (induction n and es rule: publishedFiles_publishedIn.induct)
  case (7 name n rest)
  show ?case
  proof (intro impI)
    assume val: "validEntries ((name, n) # rest)"
    then have vn: "validNames n" and vr: "validEntries rest" and fresh: "name \<notin> fst ` set rest"
      by simp_all
    from fresh have nf: "map_of rest name = None" by (simp add: map_of_eq_None_iff)
    have dr: "distinct (map fst (publishedIn rest))" using 7(2) vr by simp
    have other: "name # q \<notin> set (map fst (publishedIn rest))" for q
    proof
      assume "name # q \<in> set (map fst (publishedIn rest))"
      then obtain bs where "(name # q, bs) \<in> set (publishedIn rest)" by auto
      with published_paths(2)[of rest "name # q" bs] vr nf show False by simp
    qed
    show "distinct (map fst (publishedIn ((name, n) # rest)))"
    proof (cases "hiddenName name")
      case True
      with dr show ?thesis by simp
    next
      case False
      have m: "map fst (map (\<lambda>(p, bs). (name # p, bs)) (publishedFiles n))
                 = map ((#) name) (map fst (publishedFiles n))"
        by (simp add: case_prod_unfold comp_def)
      have d0: "distinct (map fst (publishedFiles n))" using 7(1)[OF False] vn by simp
      have i0: "inj_on ((#) name) (set (map fst (publishedFiles n)))" by (simp add: inj_on_def)
      have d1: "distinct (map ((#) name) (map fst (publishedFiles n)))"
        by (rule iffD2[OF distinct_map]) (intro conjI d0 i0)
      have disj: "set (map ((#) name) (map fst (publishedFiles n))) \<inter> set (map fst (publishedIn rest)) = {}"
        using other by auto
      from False show ?thesis
        using d1 dr disj by (simp only: publishedIn.simps if_False map_append m distinct_append)
    qed
  qed
qed simp_all

lemma plainElement_no_slash: "plainElement c \<Longrightarrow> CHR ''/'' \<notin> set c"
  by (simp add: plainElement_def)

lemma published_keys_distinct:
  assumes "validNames n"
  shows "distinct (map (\<lambda>(p, bs). relativeKey p) (publishedFiles n))"
proof -
  have i: "inj_on relativeKey (set (map fst (publishedFiles n)))"
  proof (rule inj_onI)
    fix p q assume p: "p \<in> set (map fst (publishedFiles n))" and q: "q \<in> set (map fst (publishedFiles n))"
      and eq: "relativeKey p = relativeKey q"
    from p obtain bs where "(p, bs) \<in> set (publishedFiles n)" by auto
    with published_plain(1)[of n p bs] assms have pp: "\<forall>c\<in>set p. CHR ''/'' \<notin> set c"
      by (auto dest: plainElement_no_slash)
    from q obtain bs' where "(q, bs') \<in> set (publishedFiles n)" by auto
    with published_plain(1)[of n q bs'] assms have qq: "\<forall>c\<in>set q. CHR ''/'' \<notin> set c"
      by (auto dest: plainElement_no_slash)
    from relativeKey_inj[OF pp qq eq] show "p = q" .
  qed
  from published_distinct(1)[of n] assms
  have d0: "distinct (map fst (publishedFiles n))" by simp
  have "distinct (map relativeKey (map fst (publishedFiles n)))"
    by (rule iffD2[OF distinct_map]) (rule conjI[OF d0 i])
  then show ?thesis by (simp add: case_prod_unfold comp_def)
qed

lemma walk_root_published:
  assumes "validNames root" and "appendDirEntries gz tbe [] ''/'' dir root = Inr entries"
  shows "map (\<lambda>e. (urlpath e, identityHandler e)) entries =
           map (\<lambda>(p, bs). (relativeKey p, bs)) (publishedFiles root)"
    and "distinct (map urlpath entries)"
proof -
  from walk_published(1)[of "''/''" "[]" root gz tbe "[]" dir entries] assms
  show m: "map (\<lambda>e. (urlpath e, identityHandler e)) entries =
           map (\<lambda>(p, bs). (relativeKey p, bs)) (publishedFiles root)"
    by (simp add: dirKey_def)
  have "map urlpath entries = map fst (map (\<lambda>e. (urlpath e, identityHandler e)) entries)"
    by (simp add: comp_def)
  also have "\<dots> = map (\<lambda>(p, bs). relativeKey p) (publishedFiles root)"
    unfolding m by (simp add: case_prod_unfold comp_def)
  finally show "distinct (map urlpath entries)"
    using published_keys_distinct[OF assms(1)] by simp
qed

subsection \<open>The map of the handler\<close>

lemma fold_update_Some:
  "fold (\<lambda>entry m. m(urlpath entry \<mapsto> entry)) es m k = Some e \<Longrightarrow>
     (e \<in> set es \<and> urlpath e = k) \<or> m k = Some e"
proof (induction es arbitrary: m)
  case Nil
  then show ?case by simp
next
  case (Cons a es)
  from Cons.prems have "fold (\<lambda>entry m. m(urlpath entry \<mapsto> entry)) es (m(urlpath a \<mapsto> a)) k = Some e"
    by (simp only: fold_Cons comp_apply)
  from Cons.IH[OF this] show ?case by (auto split: if_splits)
qed

lemma fillCache_Some: "fillCache es k = Some e \<Longrightarrow> e \<in> set es \<and> urlpath e = k"
  using fold_update_Some[of es Map.empty k e] by (simp add: fillCache_def)

lemma fillCache_dom: "dom (fillCache es) = urlpath ` set es"
proof -
  have "dom (fold (\<lambda>entry m. m(urlpath entry \<mapsto> entry)) es m) = dom m \<union> urlpath ` set es" for m
    by (induction es arbitrary: m) auto
  then show ?thesis by (simp add: fillCache_def)
qed

lemma fillCache_None: "fillCache es k = None \<longleftrightarrow> k \<notin> urlpath ` set es"
  unfolding fillCache_dom[symmetric] by (simp add: domIff)

lemma fold_update_other:
  "k \<notin> urlpath ` set es \<Longrightarrow> fold (\<lambda>entry m. m(urlpath entry \<mapsto> entry)) es m k = m k"
  by (induction es arbitrary: m) auto

lemma fold_update_distinct:
  "distinct (map urlpath es) \<Longrightarrow> e \<in> set es \<Longrightarrow>
     fold (\<lambda>entry m. m(urlpath entry \<mapsto> entry)) es m (urlpath e) = Some e"
proof (induction es arbitrary: m)
  case Nil
  then show ?case by simp
next
  case (Cons a es)
  show ?case
  proof (cases "e = a")
    case True
    from Cons.prems(1) have "urlpath a \<notin> urlpath ` set es" by simp
    from fold_update_other[OF this, of "m(urlpath a \<mapsto> a)"] True show ?thesis
      by (simp only: fold_Cons comp_apply) simp
  next
    case False
    with Cons.prems have "e \<in> set es" "distinct (map urlpath es)" by simp_all
    from Cons.IH[OF this(2,1), of "m(urlpath a \<mapsto> a)"] show ?thesis
      by (simp only: fold_Cons comp_apply)
  qed
qed

lemma fillCache_distinct:
  "distinct (map urlpath es) \<Longrightarrow> e \<in> set es \<Longrightarrow> fillCache es (urlpath e) = Some e"
  by (simp add: fillCache_def fold_update_distinct)

lemma filter_distinct_key:
  "distinct (map f xs) \<Longrightarrow> x \<in> set xs \<Longrightarrow> filter (\<lambda>y. f y = f x) xs = [x]"
proof (induction xs)
  case Nil
  then show ?case by simp
next
  case (Cons a xs)
  show ?case
  proof (cases "x = a")
    case True
    from Cons.prems(1) have "\<forall>y\<in>set xs. f y \<noteq> f a" by (auto simp: image_iff)
    then have "filter (\<lambda>y. f y = f a) xs = []" by (simp add: filter_empty_conv)
    with True show ?thesis by simp
  next
    case False
    with Cons.prems have x: "x \<in> set xs" and d: "distinct (map f xs)" by simp_all
    from Cons.prems(1) x have "f a \<noteq> f x" by (auto simp: image_iff)
    with Cons.IH[OF d x] show ?thesis by simp
  qed
qed

lemma NewHandler_Inr:
  assumes "NewHandler gz tbe dir root = Inr h"
  shows "\<exists>es. appendDirEntries gz tbe [] ''/'' dir root = Inr es \<and> cache h = fillCache es
           \<and> (\<exists>e. cache h ''/index.html'' = Some e)"
  using assms
  by (auto simp: NewHandler_def Let_def defaultWebpath_def split: sum.splits option.splits)

lemma NewHandler_builtBy:
  assumes "NewHandler gz tbe dir root = Inr h" "cache h k = Some e"
  shows "builtBy gz e \<and> urlpath e = k"
proof -
  from NewHandler_Inr[OF assms(1)] obtain es where
    es: "appendDirEntries gz tbe [] ''/'' dir root = Inr es" "cache h = fillCache es" by blast
  from walk_appends(1)[of gz tbe "[]" "''/''" dir root es] es(1)
  have "\<forall>e\<in>set es. builtBy gz e" by auto
  moreover from fillCache_Some[of es k e] assms(2) es(2) have "e \<in> set es" "urlpath e = k" by auto
  ultimately show ?thesis by blast
qed

section \<open>Properties of the router\<close>

lemma serve_identity:
  "runIdentityHandler e (newResponseWriter True) =
     \<lparr>headerFields = [(''Content-Type'', contentType e)], statusCode = Some 200,
      bodyWritten = identityHandler e, transportOk = True\<rparr>"
  by (simp add: runIdentityHandler_def newResponseWriter_def Header_Add_def io_Copy_def Write_def
      WriteHeader_def StatusOK_def StatusInternalServerError_def Let_def)

lemma serve_gzip:
  "runGzipHandler e gbs (newResponseWriter True) =
     \<lparr>headerFields = [(''Content-Type'', contentType e), (''Content-Encoding'', ''gzip'')],
      statusCode = Some 200, bodyWritten = gbs, transportOk = True\<rparr>"
  by (simp add: runGzipHandler_def newResponseWriter_def Header_Add_def io_Copy_def Write_def
      WriteHeader_def StatusOK_def StatusInternalServerError_def Let_def)

lemma serve_adds_content_type:
  "headerFields (runIdentityHandler e wr) = headerFields wr @ [(''Content-Type'', contentType e)]"
  "headerFields (runGzipHandler e gbs wr) =
     headerFields wr @ [(''Content-Type'', contentType e), (''Content-Encoding'', ''gzip'')]"
  by (simp_all add: runIdentityHandler_def runGzipHandler_def Header_Add_def io_Copy_def Write_def
      WriteHeader_def Let_def split: option.splits)

lemma lookupEntry_cases:
  "lookupEntry h p = (case cache h (normalizedPath p) of Some e \<Rightarrow> Some e | None \<Rightarrow> cache h ''/index.html'')"
  by (simp add: lookupEntry_def Let_def)

lemma lookupEntry_in_cache:
  assumes "lookupEntry h p = Some e"
  shows "cache h (normalizedPath p) = Some e \<or> (cache h (normalizedPath p) = None \<and> cache h ''/index.html'' = Some e)"
  using assms by (auto simp: lookupEntry_cases split: option.splits)

section \<open>The sample tree\<close>

lemmas eval_defs = path_Join_def filepath_Join_def path_Clean_def cleanLoop.simps(2) elementEnds_def
  isSlash_def strings_HasPrefix_def IsDir_def appendFileEntry_def os_Open_def io_ReadAll_def
  filepath_Ext_def registeredType_def initTypes_def framing_def Let_def
  contentTypeIsAlreadyCompressed_def tcpPacketDataSize_def signed_divide_int_def

lemmas sample_defs = sampleEntries_def licenseEntry_def appEntry_def logoEntry_def indexEntry_def

lemma sample_valid: "validNames sampleRoot"
  by (simp add: sampleRoot_def)

lemma sample_walk:
  "appendDirEntries framing registeredType [] ''/'' ''web'' sampleRoot = Inr sampleEntries"
  unfolding sampleRoot_def sample_defs
  by (simp add: eval_defs)

lemma sample_cache:
  "cache sampleHandler ''/LICENSE'' = Some licenseEntry"
  "cache sampleHandler ''/app.js'' = Some appEntry"
  "cache sampleHandler ''/assets/logo.png'' = Some logoEntry"
  "cache sampleHandler ''/index.html'' = Some indexEntry"
  by (simp_all add: sampleHandler_def fillCache_def sample_defs)

lemma sample_build:
  "NewHandler framing registeredType ''web'' sampleRoot = Inr sampleHandler"
  using sample_cache(4)
  by (simp add: NewHandler_def sample_walk sampleHandler_def defaultWebpath_def)

lemma sample_missing: "cache sampleHandler ''/does/not/exist'' = None"
  by (simp add: sampleHandler_def fillCache_def sample_defs)

lemma sample_no_passwd: "cache sampleHandler ''/etc/passwd'' = None"
  by (simp add: sampleHandler_def fillCache_def sample_defs)

lemma no_root_walk:
  "appendDirEntries framing registeredType [] ''/'' ''web'' (Directory [(''LICENSE'', RegularFile [77, 73, 84])])
     = Inr [licenseEntry]"
  unfolding sample_defs by (simp add: eval_defs)

lemma broken_walk:
  "appendDirEntries framing registeredType [] ''/'' ''web''
     (Directory [(''index.html'', RegularFile [104, 105]), (''private'', UnreadableDirectory)])
   = Inl (ReadDirFailed ''web/private'')"
  by (simp add: eval_defs)

lemma clean_missing: "normalizedPath ''/does/not/exist'' = ''/does/not/exist''"
  by (simp add: normalizedPath_def path_IsAbs_def eval_defs)

lemma clean_escape: "normalizedPath ''/../../etc/passwd'' = ''/etc/passwd''"
  by (simp add: normalizedPath_def path_IsAbs_def eval_defs backtrack.simps)

lemma clean_relative: "normalizedPath ''assets/../app.js'' = ''/app.js''"
  by (simp add: normalizedPath_def path_IsAbs_def eval_defs backtrack.simps)

lemma sample_lookup_app: "lookupEntry sampleHandler ''/app.js'' = Some appEntry"
  by (simp add: lookupEntry_cases normalizedPath_def path_IsAbs_def eval_defs sample_cache)

lemma sample_lookup_license: "lookupEntry sampleHandler ''/LICENSE'' = Some licenseEntry"
  by (simp add: lookupEntry_cases normalizedPath_def path_IsAbs_def eval_defs sample_cache)

lemma unframe_framing: "framing bs = Compressed gbs \<Longrightarrow> unframe gbs = Some bs"
  by (auto simp: framing_def unframe_def)

section \<open>The claims\<close>

text \<open>
  C1 (the code departs from it). The claim: the flag of a cached file is set exactly
  when the plain payload fills more whole 1460-byte packets than the gzip-compressed
  payload, and the content type is not pre-compressed. The builder computes the length
  of the compressed payload into the local \<open>compressedSize\<close> and then divides the
  entry's field of the same name, which still holds \<open>-1\<close>. Take an archive of 1460
  bytes, which a compressor cannot shrink and returns framed, as 1483 bytes: both
  payloads fill one packet, the type \<open>application/zip\<close> is not in the pre-compressed
  list, and the flag is set all the same.
\<close>

theorem C1_flag_set_without_packet_saved:
  "appendFileEntry framing registeredType [] ''/bundle.zip'' ''web/bundle.zip''
       (RegularFile (replicate 1460 120))
     = Inr [\<lparr>urlpath = ''/bundle.zip'', contentType = ''application/zip'',
             identitySize = 1460, identityHandler = replicate 1460 120,
             shouldServeCompressed = True, compressedSize = 1483,
             gzipHandler = Some (replicate 23 0 @ replicate 1460 120)\<rparr>]
   \<and> \<not> ((1460 :: int) sdiv tcpPacketDataSize > 1483 sdiv tcpPacketDataSize)
   \<and> \<not> contentTypeIsAlreadyCompressed ''application/zip''"
  by (simp add: eval_defs)

text \<open>
  C2. In a handler that was built, an entry whose content type is not in the
  pre-compressed list has its flag set exactly when its plain payload has at least 1460
  bytes, whatever the compressor returned: the right-hand side of the comparison is
  \<open>-1\<close> divided by 1460, which is 0.
\<close>

theorem C2_flag_depends_on_plain_size_only:
  assumes "NewHandler gz tbe dir root = Inr h"
    and "cache h k = Some e"
    and "\<not> contentTypeIsAlreadyCompressed (contentType e)"
  shows "(shouldServeCompressed e \<longleftrightarrow> 1460 \<le> length (identityHandler e))
         \<and> identitySize e = int (length (identityHandler e))
         \<and> (- 1 :: int) sdiv tcpPacketDataSize = 0"
proof -
  from NewHandler_builtBy[OF assms(1,2)] have b: "builtBy gz e" by simp
  have z: "(- 1 :: int) sdiv tcpPacketDataSize = 0"
    by (simp add: tcpPacketDataSize_def signed_divide_int_def)
  from b assms(3) z show ?thesis unfolding builtBy_def by blast
qed

theorem C2_witness:
  "NewHandler framing registeredType ''web'' sampleRoot = Inr sampleHandler
   \<and> cache sampleHandler ''/app.js'' = Some appEntry
   \<and> \<not> contentTypeIsAlreadyCompressed (contentType appEntry)
   \<and> shouldServeCompressed appEntry
   \<and> 1460 \<le> length (identityHandler appEntry)
   \<and> compressedSize appEntry sdiv tcpPacketDataSize = identitySize appEntry sdiv tcpPacketDataSize"
proof -
  have ct: "\<not> contentTypeIsAlreadyCompressed (contentType appEntry)"
    by (simp add: appEntry_def contentTypeIsAlreadyCompressed_def)
  have len: "1460 \<le> length (identityHandler appEntry)"
    by (simp add: appEntry_def)
  have glen: "compressedSize appEntry sdiv tcpPacketDataSize = identitySize appEntry sdiv tcpPacketDataSize"
    by (simp add: appEntry_def tcpPacketDataSize_def signed_divide_int_def)
  from C2_flag_depends_on_plain_size_only[OF sample_build sample_cache(2) ct] len
  have "shouldServeCompressed appEntry" by blast
  with sample_build sample_cache(2) ct len glen show ?thesis by blast
qed

text \<open>
  C3. \<open>NewHandler\<close> returns a handler exactly when the walk completes and some entry it
  collected has the path \<open>/index.html\<close>; when the walk completes without such an entry,
  it returns the error for the missing root document, and no handler.
\<close>

theorem C3_handler_iff_root_document_cached:
  "((\<exists>h. NewHandler gz tbe dir root = Inr h) \<longleftrightarrow>
      (\<exists>entries. appendDirEntries gz tbe [] ''/'' dir root = Inr entries
         \<and> ''/index.html'' \<in> urlpath ` set entries))
   \<and> (\<forall>entries. appendDirEntries gz tbe [] ''/'' dir root = Inr entries
         \<longrightarrow> ''/index.html'' \<notin> urlpath ` set entries
         \<longrightarrow> NewHandler gz tbe dir root = Inl RootNotFound)"
proof (cases "appendDirEntries gz tbe [] ''/'' dir root")
  case (Inl err)
  then show ?thesis by (simp add: NewHandler_def)
next
  case (Inr entries)
  show ?thesis
  proof (cases "fillCache entries ''/index.html''")
    case None
    then have "''/index.html'' \<notin> urlpath ` set entries" by (simp add: fillCache_None)
    with Inr None show ?thesis by (simp add: NewHandler_def defaultWebpath_def)
  next
    case (Some e)
    then have "''/index.html'' \<in> urlpath ` set entries"
      using fillCache_None[of entries "''/index.html''"] by auto
    with Inr Some show ?thesis by (simp add: NewHandler_def defaultWebpath_def)
  qed
qed

theorem C3_witness:
  "appendDirEntries framing registeredType [] ''/'' ''web''
       (Directory [(''LICENSE'', RegularFile [77, 73, 84])]) = Inr [licenseEntry]
   \<and> ''/index.html'' \<notin> urlpath ` set [licenseEntry]
   \<and> NewHandler framing registeredType ''web''
        (Directory [(''LICENSE'', RegularFile [77, 73, 84])]) = Inl RootNotFound
   \<and> appendDirEntries framing registeredType [] ''/'' ''web'' sampleRoot = Inr sampleEntries
   \<and> ''/index.html'' \<in> urlpath ` set sampleEntries
   \<and> (\<exists>h. NewHandler framing registeredType ''web'' sampleRoot = Inr h)"
proof -
  have a: "''/index.html'' \<notin> urlpath ` set [licenseEntry]"
    by (simp add: licenseEntry_def)
  have b: "''/index.html'' \<in> urlpath ` set sampleEntries"
    by (simp add: sample_defs)
  note t1 = C3_handler_iff_root_document_cached
    [of framing registeredType "''web''" "Directory [(''LICENSE'', RegularFile [77, 73, 84])]"]
  note t2 = C3_handler_iff_root_document_cached [of framing registeredType "''web''" sampleRoot]
  from t1 no_root_walk a
  have c: "NewHandler framing registeredType ''web''
        (Directory [(''LICENSE'', RegularFile [77, 73, 84])]) = Inl RootNotFound" by blast
  from t2 sample_walk b have d: "\<exists>h. NewHandler framing registeredType ''web'' sampleRoot = Inr h"
    by blast
  from no_root_walk a c sample_walk b d show ?thesis by blast
qed

text \<open>
  C4. In a handler that was built, a request whose normalized path is not a key of the
  cache is answered from the entry at \<open>/index.html\<close>: the lookup yields that entry, one
  of its two handlers writes the response, and on a fresh writer whose transport accepts
  the body the status is 200.
\<close>

theorem C4_unknown_path_serves_root_document:
  assumes "NewHandler gz tbe dir root = Inr h"
    and "cache h (normalizedPath (URL_Path r)) = None"
  shows "\<exists>e. cache h ''/index.html'' = Some e
           \<and> urlpath e = ''/index.html''
           \<and> lookupEntry h (URL_Path r) = Some e
           \<and> statusCode (ServeHTTP h (newResponseWriter True) r) = Some StatusOK
           \<and> (ServeHTTP h (newResponseWriter True) r = runIdentityHandler e (newResponseWriter True)
              \<or> (\<exists>gbs. gzipHandler e = Some gbs
                   \<and> ServeHTTP h (newResponseWriter True) r = runGzipHandler e gbs (newResponseWriter True)))"
proof -
  from NewHandler_Inr[OF assms(1)] obtain e where e: "cache h ''/index.html'' = Some e" by blast
  from NewHandler_builtBy[OF assms(1) e] have u: "urlpath e = ''/index.html''" by simp
  from e assms(2) have l: "lookupEntry h (URL_Path r) = Some e" by (simp add: lookupEntry_cases)
  have s: "statusCode (ServeHTTP h (newResponseWriter True) r) = Some StatusOK"
    by (simp add: ServeHTTP_def l serve_identity serve_gzip StatusOK_def split: option.splits)
  have b: "ServeHTTP h (newResponseWriter True) r = runIdentityHandler e (newResponseWriter True)
              \<or> (\<exists>gbs. gzipHandler e = Some gbs
                   \<and> ServeHTTP h (newResponseWriter True) r = runGzipHandler e gbs (newResponseWriter True))"
    by (simp add: ServeHTTP_def l split: option.splits)
  from e u l s b show ?thesis by blast
qed

theorem C4_witness:
  "NewHandler framing registeredType ''web'' sampleRoot = Inr sampleHandler
   \<and> cache sampleHandler (normalizedPath ''/does/not/exist'') = None
   \<and> lookupEntry sampleHandler ''/does/not/exist'' = Some indexEntry
   \<and> statusCode (ServeHTTP sampleHandler (newResponseWriter True)
        \<lparr>URL_Path = ''/does/not/exist'', Header = Map.empty\<rparr>) = Some 200
   \<and> bodyWritten (ServeHTTP sampleHandler (newResponseWriter True)
        \<lparr>URL_Path = ''/does/not/exist'', Header = Map.empty\<rparr>) = [104, 105]"
proof -
  have m: "cache sampleHandler (normalizedPath (URL_Path \<lparr>URL_Path = ''/does/not/exist'', Header = Map.empty\<rparr>)) = None"
    by (simp add: clean_missing sample_missing)
  from C4_unknown_path_serves_root_document[OF sample_build m] sample_cache(4)
  have l: "lookupEntry sampleHandler ''/does/not/exist'' = Some indexEntry"
    and s: "statusCode (ServeHTTP sampleHandler (newResponseWriter True)
        \<lparr>URL_Path = ''/does/not/exist'', Header = Map.empty\<rparr>) = Some 200"
    by (auto simp: StatusOK_def)
  have b: "bodyWritten (ServeHTTP sampleHandler (newResponseWriter True)
        \<lparr>URL_Path = ''/does/not/exist'', Header = Map.empty\<rparr>) = [104, 105]"
    by (simp add: ServeHTTP_def l serve_identity indexEntry_def)
  from sample_build m l s b show ?thesis by simp
qed

text \<open>
  C5. In a handler that was built, the entry a request resolves to has a compressed
  handler exactly when its flag is set. On a fresh writer whose transport accepts the
  body, the response is the compressed one (content type, \<open>Content-Encoding: gzip\<close>, the
  output of the compressor on the plain payload as body) exactly when the flag is set and
  the value of \<open>Accept-Encoding\<close> contains the bytes \<open>gzip\<close>; otherwise it is the plain
  payload under the content type alone.
\<close>

theorem C5_compressed_iff_flag_and_accept_encoding:
  assumes "NewHandler gz tbe dir root = Inr h"
    and "lookupEntry h (URL_Path r) = Some e"
  shows "(gzipHandler e \<noteq> None \<longleftrightarrow> shouldServeCompressed e)
       \<and> (strings_Contains (Header_Get (Header r) ''Accept-Encoding'') ''gzip'' \<longleftrightarrow>
            (\<exists>pre post. Header_Get (Header r) ''Accept-Encoding'' = pre @ ''gzip'' @ post))
       \<and> (\<exists>gbs. gz (identityHandler e) = Compressed gbs
            \<and> ServeHTTP h (newResponseWriter True) r =
                (if shouldServeCompressed e
                    \<and> strings_Contains (Header_Get (Header r) ''Accept-Encoding'') ''gzip''
                 then \<lparr>headerFields = [(''Content-Type'', contentType e), (''Content-Encoding'', ''gzip'')],
                       statusCode = Some StatusOK, bodyWritten = gbs, transportOk = True\<rparr>
                 else \<lparr>headerFields = [(''Content-Type'', contentType e)],
                       statusCode = Some StatusOK, bodyWritten = identityHandler e,
                       transportOk = True\<rparr>))"
proof -
  from lookupEntry_in_cache[OF assms(2)] obtain k where "cache h k = Some e" by blast
  from NewHandler_builtBy[OF assms(1) this] have "builtBy gz e" by simp
  then obtain gbs where g: "gz (identityHandler e) = Compressed gbs"
    and f: "gzipHandler e = (if shouldServeCompressed e then Some gbs else None)"
    unfolding builtBy_def by blast
  from f have a: "gzipHandler e \<noteq> None \<longleftrightarrow> shouldServeCompressed e" by simp
  have s: "ServeHTTP h (newResponseWriter True) r =
                (if shouldServeCompressed e
                    \<and> strings_Contains (Header_Get (Header r) ''Accept-Encoding'') ''gzip''
                 then \<lparr>headerFields = [(''Content-Type'', contentType e), (''Content-Encoding'', ''gzip'')],
                       statusCode = Some StatusOK, bodyWritten = gbs, transportOk = True\<rparr>
                 else \<lparr>headerFields = [(''Content-Type'', contentType e)],
                       statusCode = Some StatusOK, bodyWritten = identityHandler e,
                       transportOk = True\<rparr>)"
    by (simp add: ServeHTTP_def assms(2) f serve_identity serve_gzip StatusOK_def)
  from a g s strings_Contains_iff show ?thesis by blast
qed

theorem C5_witness:
  "NewHandler framing registeredType ''web'' sampleRoot = Inr sampleHandler
   \<and> lookupEntry sampleHandler ''/app.js'' = Some appEntry
   \<and> shouldServeCompressed appEntry
   \<and> ServeHTTP sampleHandler (newResponseWriter True)
        \<lparr>URL_Path = ''/app.js'', Header = [''Accept-Encoding'' \<mapsto> [''deflate, gzip'']]\<rparr>
      = \<lparr>headerFields = [(''Content-Type'', ''text/javascript; charset=utf-8''),
                          (''Content-Encoding'', ''gzip'')],
         statusCode = Some 200, bodyWritten = replicate 23 0 @ replicate 3000 97,
         transportOk = True\<rparr>
   \<and> ServeHTTP sampleHandler (newResponseWriter True)
        \<lparr>URL_Path = ''/app.js'', Header = Map.empty\<rparr>
      = \<lparr>headerFields = [(''Content-Type'', ''text/javascript; charset=utf-8'')],
         statusCode = Some 200, bodyWritten = replicate 3000 97, transportOk = True\<rparr>
   \<and> ServeHTTP sampleHandler (newResponseWriter True)
        \<lparr>URL_Path = ''/app.js'', Header = [''Accept-Encoding'' \<mapsto> [''GZIP'']]\<rparr>
      = \<lparr>headerFields = [(''Content-Type'', ''text/javascript; charset=utf-8'')],
         statusCode = Some 200, bodyWritten = replicate 3000 97, transportOk = True\<rparr>"
proof -
  have l1: "lookupEntry sampleHandler
      (URL_Path \<lparr>URL_Path = ''/app.js'', Header = [''Accept-Encoding'' \<mapsto> [''deflate, gzip'']]\<rparr>) = Some appEntry"
    and l2: "lookupEntry sampleHandler
      (URL_Path \<lparr>URL_Path = ''/app.js'', Header = Map.empty\<rparr>) = Some appEntry"
    and l3: "lookupEntry sampleHandler
      (URL_Path \<lparr>URL_Path = ''/app.js'', Header = [''Accept-Encoding'' \<mapsto> [''GZIP'']]\<rparr>) = Some appEntry"
    by (simp_all add: sample_lookup_app)
  have f: "shouldServeCompressed appEntry" by (simp add: appEntry_def)
  have g: "framing (identityHandler appEntry) = Compressed (replicate 23 0 @ replicate 3000 97)"
    by (simp add: appEntry_def framing_def)
  from C5_compressed_iff_flag_and_accept_encoding[OF sample_build l1] g
  have a: "ServeHTTP sampleHandler (newResponseWriter True)
        \<lparr>URL_Path = ''/app.js'', Header = [''Accept-Encoding'' \<mapsto> [''deflate, gzip'']]\<rparr>
      = \<lparr>headerFields = [(''Content-Type'', ''text/javascript; charset=utf-8''),
                          (''Content-Encoding'', ''gzip'')],
         statusCode = Some 200, bodyWritten = replicate 23 0 @ replicate 3000 97,
         transportOk = True\<rparr>"
    by (auto simp: f strings_HasPrefix_def Header_Get_def StatusOK_def appEntry_def)
  from C5_compressed_iff_flag_and_accept_encoding[OF sample_build l2]
  have b: "ServeHTTP sampleHandler (newResponseWriter True)
        \<lparr>URL_Path = ''/app.js'', Header = Map.empty\<rparr>
      = \<lparr>headerFields = [(''Content-Type'', ''text/javascript; charset=utf-8'')],
         statusCode = Some 200, bodyWritten = replicate 3000 97, transportOk = True\<rparr>"
    by (auto simp: f strings_HasPrefix_def Header_Get_def StatusOK_def appEntry_def)
  from C5_compressed_iff_flag_and_accept_encoding[OF sample_build l3]
  have c: "ServeHTTP sampleHandler (newResponseWriter True)
        \<lparr>URL_Path = ''/app.js'', Header = [''Accept-Encoding'' \<mapsto> [''GZIP'']]\<rparr>
      = \<lparr>headerFields = [(''Content-Type'', ''text/javascript; charset=utf-8'')],
         statusCode = Some 200, bodyWritten = replicate 3000 97, transportOk = True\<rparr>"
    by (auto simp: f strings_HasPrefix_def Header_Get_def StatusOK_def appEntry_def)
  from sample_build sample_lookup_app f a b c show ?thesis by blast
qed

text \<open>
  C6. The lookup of a request path is a lookup of the cleaned path, a slash put in front
  first when the path does not start with one, with \<open>/index.html\<close> looked up when the
  cleaned path is no key. The cleaned path is a slash followed by elements joined with
  slashes, none of them empty, a dot or dot-dot, so it names nothing above the root. In a
  handler that was built the lookup always yields an entry of the cache, stored under its
  own path, which is the cleaned path or, when that is no key, \<open>/index.html\<close>; the
  response is written by one of the two handlers of that entry. The handler holds the map
  alone: no function of the router takes the file system.
\<close>

theorem C6_lookup_of_cleaned_path_stays_in_cache:
  assumes "NewHandler gz tbe dir root = Inr h"
  shows "normalizedPath (URL_Path r)
           = path_Clean (if path_IsAbs (URL_Path r) then URL_Path r else ''/'' @ URL_Path r)
       \<and> lookupEntry h (URL_Path r)
           = (case cache h (normalizedPath (URL_Path r)) of
                Some e \<Rightarrow> Some e | None \<Rightarrow> cache h ''/index.html'')
       \<and> (\<exists>comps. normalizedPath (URL_Path r) = (if comps = [] then ''/'' else relativeKey comps)
             \<and> (\<forall>c\<in>set comps. cleanElement c))
       \<and> (\<exists>e. lookupEntry h (URL_Path r) = Some e
             \<and> cache h (urlpath e) = Some e
             \<and> (urlpath e = normalizedPath (URL_Path r)
                 \<or> cache h (normalizedPath (URL_Path r)) = None \<and> urlpath e = ''/index.html'')
             \<and> (ServeHTTP h wr r = runIdentityHandler e wr
                 \<or> (\<exists>gbs. gzipHandler e = Some gbs \<and> ServeHTTP h wr r = runGzipHandler e gbs wr)))"
proof -
  have a: "normalizedPath (URL_Path r)
           = path_Clean (if path_IsAbs (URL_Path r) then URL_Path r else ''/'' @ URL_Path r)"
    by (simp add: normalizedPath_def)
  from NewHandler_Inr[OF assms] obtain i where i: "cache h ''/index.html'' = Some i" by blast
  then obtain e where e: "lookupEntry h (URL_Path r) = Some e"
    by (cases "cache h (normalizedPath (URL_Path r))") (simp_all add: lookupEntry_cases)
  from lookupEntry_in_cache[OF e]
  consider "cache h (normalizedPath (URL_Path r)) = Some e"
    | "cache h (normalizedPath (URL_Path r)) = None" "cache h ''/index.html'' = Some e"
    by auto
  then have k: "cache h (urlpath e) = Some e
             \<and> (urlpath e = normalizedPath (URL_Path r)
                 \<or> cache h (normalizedPath (URL_Path r)) = None \<and> urlpath e = ''/index.html'')"
  proof cases
    case 1
    with NewHandler_builtBy[OF assms 1] show ?thesis by simp
  next
    case 2
    with NewHandler_builtBy[OF assms 2(2)] show ?thesis by simp
  qed
  have s: "ServeHTTP h wr r = runIdentityHandler e wr
                 \<or> (\<exists>gbs. gzipHandler e = Some gbs \<and> ServeHTTP h wr r = runGzipHandler e gbs wr)"
    by (simp add: ServeHTTP_def e split: option.splits)
  from a lookupEntry_cases[of h "URL_Path r"] normalizedPath_clean[of "URL_Path r", unfolded dirKey_def]
    e k s
  show ?thesis by blast
qed

theorem C6_witness:
  "NewHandler framing registeredType ''web'' sampleRoot = Inr sampleHandler
   \<and> normalizedPath ''/../../etc/passwd'' = ''/etc/passwd''
   \<and> cache sampleHandler ''/etc/passwd'' = None
   \<and> lookupEntry sampleHandler ''/../../etc/passwd'' = Some indexEntry
   \<and> normalizedPath ''assets/../app.js'' = ''/app.js''
   \<and> lookupEntry sampleHandler ''assets/../app.js'' = Some appEntry"
proof -
  note t1 = C6_lookup_of_cleaned_path_stays_in_cache[OF sample_build,
      of "\<lparr>URL_Path = ''/../../etc/passwd'', Header = Map.empty\<rparr>" "newResponseWriter True"]
  note t2 = C6_lookup_of_cleaned_path_stays_in_cache[OF sample_build,
      of "\<lparr>URL_Path = ''assets/../app.js'', Header = Map.empty\<rparr>" "newResponseWriter True"]
  from t1 have "lookupEntry sampleHandler ''/../../etc/passwd''
      = (case cache sampleHandler (normalizedPath ''/../../etc/passwd'') of
           Some e \<Rightarrow> Some e | None \<Rightarrow> cache sampleHandler ''/index.html'')"
    by simp
  then have a: "lookupEntry sampleHandler ''/../../etc/passwd'' = Some indexEntry"
    by (simp add: clean_escape sample_no_passwd sample_cache)
  from t2 have "lookupEntry sampleHandler ''assets/../app.js''
      = (case cache sampleHandler (normalizedPath ''assets/../app.js'') of
           Some e \<Rightarrow> Some e | None \<Rightarrow> cache sampleHandler ''/index.html'')"
    by simp
  then have b: "lookupEntry sampleHandler ''assets/../app.js'' = Some appEntry"
    by (simp add: clean_relative sample_cache)
  from sample_build clean_escape sample_no_passwd a clean_relative b show ?thesis by simp
qed

text \<open>
  C7. Let the names of the tree be file names (not empty, without a slash, unique in
  their directory) and let the walk complete. Then for every regular file at a path from
  the root none of whose components starts with a dot or an underscore, exactly one of
  the collected entries has the key that joins the components with slashes after a
  leading slash; that entry holds the file's bytes, and it is the one the handler's map
  has under the key. Conversely every collected entry is such a file under such a key,
  so nothing below a hidden name is published.
\<close>

theorem C7_one_entry_per_visible_file:
  assumes "validNames root"
    and "appendDirEntries gz tbe [] ''/'' dir root = Inr entries"
  shows "(\<forall>p bs. nodeAt root p = Some (RegularFile bs) \<and> (\<forall>c\<in>set p. \<not> hiddenName c)
            \<longrightarrow> (\<exists>e. filter (\<lambda>e. urlpath e = relativeKey p) entries = [e]
                    \<and> identityHandler e = bs
                    \<and> fillCache entries (relativeKey p) = Some e))
       \<and> (\<forall>e\<in>set entries. \<exists>p. urlpath e = relativeKey p
                    \<and> nodeAt root p = Some (RegularFile (identityHandler e))
                    \<and> (\<forall>c\<in>set p. \<not> hiddenName c))"
proof (intro conjI allI impI ballI)
  note m = walk_root_published(1)[OF assms] and d = walk_root_published(2)[OF assms]
  fix p bs
  assume a: "nodeAt root p = Some (RegularFile bs) \<and> (\<forall>c\<in>set p. \<not> hiddenName c)"
  with published_paths(1)[of root p bs] assms(1) have "(p, bs) \<in> set (publishedFiles root)" by simp
  then have "(relativeKey p, bs) \<in> set (map (\<lambda>(p, bs). (relativeKey p, bs)) (publishedFiles root))"
    by force
  with m have "(relativeKey p, bs) \<in> set (map (\<lambda>e. (urlpath e, identityHandler e)) entries)" by simp
  then obtain e where e: "e \<in> set entries" "urlpath e = relativeKey p" "identityHandler e = bs"
    by auto
  from filter_distinct_key[OF d e(1)] e(2)
  have f: "filter (\<lambda>e. urlpath e = relativeKey p) entries = [e]" by simp
  from fillCache_distinct[OF d e(1)] e(2) have c: "fillCache entries (relativeKey p) = Some e" by simp
  from f e(3) c show "\<exists>e. filter (\<lambda>e. urlpath e = relativeKey p) entries = [e]
                    \<and> identityHandler e = bs \<and> fillCache entries (relativeKey p) = Some e"
    by blast
next
  note m = walk_root_published(1)[OF assms]
  fix e assume "e \<in> set entries"
  then have "(urlpath e, identityHandler e) \<in> set (map (\<lambda>e. (urlpath e, identityHandler e)) entries)"
    by force
  with m obtain p where p: "(p, identityHandler e) \<in> set (publishedFiles root)" "urlpath e = relativeKey p"
    by auto
  with published_paths(1)[of root p "identityHandler e"] assms(1)
  show "\<exists>p. urlpath e = relativeKey p \<and> nodeAt root p = Some (RegularFile (identityHandler e))
                    \<and> (\<forall>c\<in>set p. \<not> hiddenName c)"
    by blast
qed

theorem C7_witness:
  "validNames sampleRoot
   \<and> appendDirEntries framing registeredType [] ''/'' ''web'' sampleRoot = Inr sampleEntries
   \<and> nodeAt sampleRoot [''assets'', ''logo.png''] = Some (RegularFile (replicate 2000 7))
   \<and> \<not> hiddenName ''assets'' \<and> \<not> hiddenName ''logo.png''
   \<and> relativeKey [''assets'', ''logo.png''] = ''/assets/logo.png''
   \<and> filter (\<lambda>e. urlpath e = ''/assets/logo.png'') sampleEntries = [logoEntry]
   \<and> identityHandler logoEntry = replicate 2000 7
   \<and> map urlpath sampleEntries = [''/LICENSE'', ''/app.js'', ''/assets/logo.png'', ''/index.html'']"
proof -
  have n: "nodeAt sampleRoot [''assets'', ''logo.png''] = Some (RegularFile (replicate 2000 7))"
    by (simp add: sampleRoot_def)
  have h: "\<not> hiddenName ''assets''" "\<not> hiddenName ''logo.png''"
    by (simp_all add: hiddenName_def)
  have k: "relativeKey [''assets'', ''logo.png''] = ''/assets/logo.png''" by simp
  have c: "fillCache sampleEntries ''/assets/logo.png'' = Some logoEntry"
    using sample_cache(3) by (simp add: sampleHandler_def)
  from C7_one_entry_per_visible_file[OF sample_valid sample_walk]
  have "\<forall>p bs. nodeAt sampleRoot p = Some (RegularFile bs) \<and> (\<forall>c\<in>set p. \<not> hiddenName c)
            \<longrightarrow> (\<exists>e. filter (\<lambda>e. urlpath e = relativeKey p) sampleEntries = [e]
                    \<and> identityHandler e = bs
                    \<and> fillCache sampleEntries (relativeKey p) = Some e)"
    by (rule conjunct1)
  from this[rule_format, of "[''assets'', ''logo.png'']" "replicate 2000 7"] n h
  obtain e where "filter (\<lambda>e. urlpath e = relativeKey [''assets'', ''logo.png'']) sampleEntries = [e]"
    and "fillCache sampleEntries (relativeKey [''assets'', ''logo.png'']) = Some e"
    by auto
  with k c have f: "filter (\<lambda>e. urlpath e = ''/assets/logo.png'') sampleEntries = [logoEntry]"
    by simp
  have i: "identityHandler logoEntry = replicate 2000 7" by (simp add: logoEntry_def)
  have u: "map urlpath sampleEntries = [''/LICENSE'', ''/app.js'', ''/assets/logo.png'', ''/index.html'']"
    by (simp add: sample_defs)
  from sample_valid sample_walk n h k f i u show ?thesis by simp
qed

text \<open>
  C8. The walk returns an error, and no entries, exactly when an error occurs in it;
  \<open>NewHandler\<close> then returns that error and no handler. The loop over a directory stops
  at the failure: once it has failed on some entries, whatever entries follow them, it
  fails with the same error.
\<close>

theorem C8_walk_error_aborts_build:
  "((\<exists>err. appendDirEntries gz tbe sl u f root = Inl err) \<longleftrightarrow> walkFault gz root)
   \<and> (walkFault gz root \<longrightarrow>
        (\<exists>err. appendDirEntries gz tbe [] ''/'' dir root = Inl err
           \<and> NewHandler gz tbe dir root = Inl err))
   \<and> (\<forall>es rest err. dirLoop gz tbe sl u f es = Inl err
         \<longrightarrow> dirLoop gz tbe sl u f (es @ rest) = Inl err)"
proof -
  have a: "(\<exists>err. appendDirEntries gz tbe sl u f root = Inl err) \<longleftrightarrow> walkFault gz root"
    using walk_fault(1)[of gz tbe sl u f root] by (simp add: isl_def)
  have b: "\<exists>err. appendDirEntries gz tbe [] ''/'' dir root = Inl err
           \<and> NewHandler gz tbe dir root = Inl err" if "walkFault gz root"
  proof -
    from that walk_fault(1)[of gz tbe "[]" "''/''" dir root]
    obtain err where "appendDirEntries gz tbe [] ''/'' dir root = Inl err"
      by (auto simp: isl_def)
    then show ?thesis by (simp add: NewHandler_def)
  qed
  from a b dirLoop_aborts show ?thesis by blast
qed

theorem C8_witness:
  "walkFault framing (Directory [(''index.html'', RegularFile [104, 105]), (''private'', UnreadableDirectory)])
   \<and> appendDirEntries framing registeredType [] ''/'' ''web''
        (Directory [(''index.html'', RegularFile [104, 105]), (''private'', UnreadableDirectory)])
      = Inl (ReadDirFailed ''web/private'')
   \<and> NewHandler framing registeredType ''web''
        (Directory [(''index.html'', RegularFile [104, 105]), (''private'', UnreadableDirectory)])
      = Inl (ReadDirFailed ''web/private'')"
proof -
  have w: "walkFault framing
      (Directory [(''index.html'', RegularFile [104, 105]), (''private'', UnreadableDirectory)])"
    by (simp add: walkFault_def hiddenName_def framing_def)
  from C8_walk_error_aborts_build[of framing registeredType "[]" "''/''" "''web''"
      "Directory [(''index.html'', RegularFile [104, 105]), (''private'', UnreadableDirectory)]" "''web''"] w
  obtain err where "appendDirEntries framing registeredType [] ''/'' ''web''
        (Directory [(''index.html'', RegularFile [104, 105]), (''private'', UnreadableDirectory)])
      = Inl err"
    and "NewHandler framing registeredType ''web''
        (Directory [(''index.html'', RegularFile [104, 105]), (''private'', UnreadableDirectory)])
      = Inl err"
    by blast
  with w broken_walk show ?thesis by simp
qed

text \<open>
  C9 (corrected). The claim: the \<open>Content-Type\<close> field is emitted only for a known content
  type, and a file of unknown type is served without it. Both handlers add the field
  before anything else, with whatever the entry holds: the file \<open>LICENSE\<close> of the sample
  tree has no extension, its content type is empty, and its response carries the field
  with the empty value.
\<close>

theorem C9_counterexample:
  "NewHandler framing registeredType ''web'' sampleRoot = Inr sampleHandler
   \<and> lookupEntry sampleHandler ''/LICENSE'' = Some licenseEntry
   \<and> contentType licenseEntry = []
   \<and> ServeHTTP sampleHandler (newResponseWriter True) \<lparr>URL_Path = ''/LICENSE'', Header = Map.empty\<rparr>
      = \<lparr>headerFields = [(''Content-Type'', [])], statusCode = Some 200,
         bodyWritten = [77, 73, 84], transportOk = True\<rparr>"
  by (simp add: sample_build sample_lookup_license ServeHTTP_def serve_identity licenseEntry_def)

text \<open>
  C9 as amended. Whatever entry a request resolves to, and whatever the writer holds, the
  response gains the field \<open>Content-Type\<close> with the entry's content type as its value,
  empty or not, followed by \<open>Content-Encoding: gzip\<close> when the compressed handler runs and
  by nothing otherwise; on a fresh writer whose transport accepts the body the entry is
  served with status 200.
\<close>

theorem C9_content_type_always_added:
  assumes "lookupEntry h (URL_Path r) = Some e"
  shows "(headerFields (ServeHTTP h wr r) = headerFields wr @ [(''Content-Type'', contentType e)]
          \<or> headerFields (ServeHTTP h wr r) =
              headerFields wr @ [(''Content-Type'', contentType e), (''Content-Encoding'', ''gzip'')])
       \<and> statusCode (ServeHTTP h (newResponseWriter True) r) = Some StatusOK"
  by (simp add: ServeHTTP_def assms serve_adds_content_type serve_identity serve_gzip StatusOK_def
      split: option.splits)

theorem C9_witness:
  "lookupEntry sampleHandler ''/LICENSE'' = Some licenseEntry
   \<and> contentType licenseEntry = []
   \<and> headerFields (ServeHTTP sampleHandler (newResponseWriter True)
        \<lparr>URL_Path = ''/LICENSE'', Header = Map.empty\<rparr>) = [(''Content-Type'', [])]
   \<and> statusCode (ServeHTTP sampleHandler (newResponseWriter True)
        \<lparr>URL_Path = ''/LICENSE'', Header = Map.empty\<rparr>) = Some 200"
proof -
  have l: "lookupEntry sampleHandler (URL_Path \<lparr>URL_Path = ''/LICENSE'', Header = Map.empty\<rparr>)
             = Some licenseEntry"
    by (simp add: sample_lookup_license)
  have c: "contentType licenseEntry = []" by (simp add: licenseEntry_def)
  have n: "gzipHandler licenseEntry = None" by (simp add: licenseEntry_def)
  have i: "ServeHTTP sampleHandler (newResponseWriter True) \<lparr>URL_Path = ''/LICENSE'', Header = Map.empty\<rparr>
        = runIdentityHandler licenseEntry (newResponseWriter True)"
    by (simp add: ServeHTTP_def sample_lookup_license n)
  from C9_content_type_always_added[OF l, of "newResponseWriter True"]
  have s: "statusCode (ServeHTTP sampleHandler (newResponseWriter True)
        \<lparr>URL_Path = ''/LICENSE'', Header = Map.empty\<rparr>) = Some 200"
    by (simp add: StatusOK_def)
  have f: "headerFields (ServeHTTP sampleHandler (newResponseWriter True)
        \<lparr>URL_Path = ''/LICENSE'', Header = Map.empty\<rparr>) = [(''Content-Type'', [])]"
    by (simp add: i serve_identity c)
  from sample_lookup_license c f s show ?thesis by simp
qed

text \<open>
  C10. Let the decompressor invert the compressor wherever the compressor succeeds. Then
  in a handler that was built, every entry with the flag set has a compressed handler,
  the bytes it serves are the compressor's output on the entry's plain payload, and
  decompressing them gives the plain payload back.
\<close>

theorem C10_compressed_payload_round_trip:
  assumes "\<And>bs gbs. gz bs = Compressed gbs \<Longrightarrow> gunzip gbs = Some bs"
    and "NewHandler gz tbe dir root = Inr h"
    and "cache h k = Some e"
    and "shouldServeCompressed e"
  shows "\<exists>gbs. gzipHandler e = Some gbs
           \<and> gz (identityHandler e) = Compressed gbs
           \<and> gunzip gbs = Some (identityHandler e)"
proof -
  from NewHandler_builtBy[OF assms(2,3)] have "builtBy gz e" by simp
  with assms(4) obtain gbs where g: "gz (identityHandler e) = Compressed gbs"
    and f: "gzipHandler e = Some gbs"
    unfolding builtBy_def by auto
  from assms(1)[OF g] g f show ?thesis by blast
qed

theorem C10_witness:
  "NewHandler framing registeredType ''web'' sampleRoot = Inr sampleHandler
   \<and> cache sampleHandler ''/app.js'' = Some appEntry
   \<and> shouldServeCompressed appEntry
   \<and> gzipHandler appEntry = Some (replicate 23 0 @ replicate 3000 97)
   \<and> unframe (replicate 23 0 @ replicate 3000 97) = Some (identityHandler appEntry)"
proof -
  have f: "shouldServeCompressed appEntry" by (simp add: appEntry_def)
  have g: "gzipHandler appEntry = Some (replicate 23 0 @ replicate 3000 97)"
    by (simp add: appEntry_def)
  from C10_compressed_payload_round_trip[of framing unframe, OF unframe_framing sample_build sample_cache(2) f] g
  have "unframe (replicate 23 0 @ replicate 3000 97) = Some (identityHandler appEntry)"
    by auto
  with sample_build sample_cache(2) f g show ?thesis by simp
qed

end
